theory Spec2Isabelle
  imports Main "HOL-Library.Sublist"
begin

section \<open>MegaScraper: a shallow embedding of mega\_scraper.py\<close>

text \<open>
  The class \<open>MegaScraper\<close> crawls one website from a seed URL, collects image URLs and
  downloads the images. Its fields fall in two groups: those assigned once in the
  constructor (record \<open>config\<close>) and those the methods \<open>scrape\<close> and \<open>download\<close> mutate
  (record \<open>state\<close>). The state record also carries the observable effects of the methods,
  in the order they happen: the page requests, the image requests, the directories made
  and the files saved.

  The libraries the class calls are collaborators (record \<open>env\<close>): \<open>urllib.parse.urlparse\<close>,
  \<open>re.search\<close>, \<open>requests.get\<close> followed by \<open>bs4.BeautifulSoup\<close>, \<open>PIL.Image.open\<close> on a
  requested stream, \<open>os.makedirs\<close> and \<open>image.save\<close>. Each of them is a fixed function of
  its arguments and may raise; every such exception is a result of the method that made
  the call, with the state the object is left in. The progress messages the methods
  print are left out.

  Python's \<open>set.pop()\<close> removes an arbitrary element. A method therefore has a set of
  possible results, one for every way the pops can fall.
\<close>

subsection \<open>Strings\<close>

definition startswith :: "string \<Rightarrow> string \<Rightarrow> bool" where
  "startswith s p = prefix p s"

definition endswith :: "string \<Rightarrow> string \<Rightarrow> bool" where
  "endswith s p = suffix p s"

text \<open>\<open>s.split(sep)\<close> for a one-character separator: never the empty list.\<close>

fun split_chr :: "char \<Rightarrow> string \<Rightarrow> string list" where
  "split_chr sep [] = [[]]"
| "split_chr sep (c # cs) =
     (if c = sep then [] # split_chr sep cs
      else (case split_chr sep cs of
              [] \<Rightarrow> [[c]]
            | w # ws \<Rightarrow> (c # w) # ws))"

text \<open>\<open>str(n)\<close> for an integer: decimal digits, a minus sign when negative.\<close>

definition digit_chr :: "nat \<Rightarrow> char" where
  "digit_chr d = ''0123456789'' ! d"

fun digits :: "nat \<Rightarrow> string" where
  "digits n = (if n < 10 then [digit_chr n] else digits (n div 10) @ [digit_chr (n mod 10)])"

declare digits.simps [simp del]

definition str_int :: "int \<Rightarrow> string" where
  "str_int i = (if i < 0 then CHR ''-'' # digits (nat (- i)) else digits (nat i))"

text \<open>\<open>s.zfill(width)\<close>: zeros on the left, after a leading sign if there is one.\<close>

definition zfill :: "nat \<Rightarrow> string \<Rightarrow> string" where
  "zfill width s =
     (if width \<le> length s then s
      else (case s of
              [] \<Rightarrow> replicate width CHR ''0''
            | c # rest \<Rightarrow>
                if c = CHR ''+'' \<or> c = CHR ''-''
                then c # replicate (width - length s) CHR ''0'' @ rest
                else replicate (width - length s) CHR ''0'' @ s))"

text \<open>\<open>os.path.join(a, b)\<close> of posixpath, for two components.\<close>

definition path_join :: "string \<Rightarrow> string \<Rightarrow> string" where
  "path_join a b =
     (if startswith b ''/'' then b
      else if a = [] \<or> endswith a ''/'' then a @ b
      else a @ ''/'' @ b)"

text \<open>
  \<open>int(a / b)\<close>: the quotient truncated towards zero. Python divides in floating point
  here; the model takes the exact quotient, which is what the float gives as long as the
  operands stay below \<open>2 ^ 53\<close>.
\<close>

definition int_truediv :: "int \<Rightarrow> int \<Rightarrow> int" where
  "int_truediv a b = sgn a * sgn b * (\<bar>a\<bar> div \<bar>b\<bar>)"

subsection \<open>Collaborators\<close>

record parsed_url =
  scheme :: string
  netloc :: string

text \<open>
  A parsed page, as far as the scraper looks at it: for every \<open>a\<close> element the value of
  \<open>element.get('href')\<close> and for every \<open>img\<close> element the value of \<open>element.get('src')\<close>,
  in document order; \<open>None\<close> when the attribute is missing.
\<close>

record page =
  a_hrefs :: "string option list"
  img_srcs :: "string option list"

record env =
  urlparse :: "string \<Rightarrow> parsed_url option"
  re_search :: "string \<Rightarrow> string \<Rightarrow> bool option"
  get_page :: "string \<Rightarrow> page option"
  open_image :: "string \<Rightarrow> (int \<times> int) option"
  path_exists0 :: "string \<Rightarrow> bool"
  makedirs_ok :: "string \<Rightarrow> bool"
  save_ok :: "string \<Rightarrow> string \<Rightarrow> bool"

text \<open>
  \<open>urlparse e url\<close> is \<open>urllib.parse.urlparse(url)\<close>, \<open>None\<close> when it raises \<open>ValueError\<close>
  (as it does on \<open>http://[x/\<close>, for one).
  \<open>get_page e url\<close> is \<open>BeautifulSoup(requests.get(url).content)\<close>, \<open>None\<close> when the request
  raises. \<open>open_image e url\<close> is \<open>PIL.Image.open(requests.get(url, stream=True).raw)\<close>,
  giving the image's width and height, \<open>None\<close> when the request or the decoding raises.
  \<open>re_search e pattern s\<close> says whether \<open>re.search(pattern, s)\<close> finds a match, \<open>None\<close>
  when it raises \<open>re.error\<close> (as it does on the pattern \<open>(\<close>, for one).
  \<open>path_exists0 e p\<close> says whether \<open>p\<close> existed before the scraper was constructed.
  \<open>makedirs_ok e p\<close> says whether \<open>os.makedirs(p)\<close> returns, having made the directory,
  rather than raises (as it does on the empty path, for one).
  \<open>save_ok e url p\<close> says whether \<open>image.save(p)\<close>, for the image opened from \<open>url\<close>,
  returns, having written the file, rather than raises (as it does when the name has
  no known extension, or when the image has a mode the format of the extension cannot
  hold).
\<close>

subsection \<open>The object\<close>

datatype error =
    AssertionError
  | ValueError
  | ReError
  | RequestError string
  | ImageError string
  | MakedirsError string
  | SaveError string
  | UnboundLocalError
  | ZeroDivisionError

text \<open>
  \<open>ValueError\<close> is what \<open>urlparse\<close> raises and \<open>ReError\<close> what \<open>re.search\<close> raises;
  \<open>RequestError url\<close> and \<open>ImageError url\<close> stand
  for whatever the request for a page or the opening of an image raises;
  \<open>MakedirsError p\<close> and \<open>SaveError p\<close> stand for whatever \<open>os.makedirs(p)\<close> and
  \<open>image.save(p)\<close> raise.
\<close>

record config =
  seed :: string
  parsed_seed :: parsed_url
  root :: string
  regex_pages :: string
  regex_images :: string
  min_width :: int
  min_height :: int
  output_folderpath :: string
  output_structure :: string
  output_naming :: string
  images_per_folder :: int
  folder_initial_num :: int

record state =
  explored :: "string set"
  unexplored :: "string set"
  images_urls :: "string set"
  downloaded :: "string set"
  downloaded_idx :: int
  page_requests :: "string list"
  image_requests :: "string list"
  made_dirs :: "string list"
  saved :: "(string \<times> string) list"

text \<open>
  \<open>page_requests\<close> and \<open>image_requests\<close> list the URLs passed to \<open>requests.get\<close>,
  \<open>made_dirs\<close> the paths passed to an \<open>os.makedirs\<close> that returned, and \<open>saved\<close> the
  calls of \<open>image.save\<close> that returned, as pairs of the file path and the URL the image
  came from, oldest first. What a call that raised has left on the disk is not recorded.
\<close>

datatype 'a result = Raised error state | Returned 'a state

fun state_of :: "'a result \<Rightarrow> state" where
  "state_of (Raised err s) = s"
| "state_of (Returned v s) = s"

definition MegaScraper ::
  "env \<Rightarrow> string \<Rightarrow> string \<Rightarrow> string \<Rightarrow> int \<Rightarrow> int \<Rightarrow> string \<Rightarrow> string \<Rightarrow> string \<Rightarrow> int \<Rightarrow> int
     \<Rightarrow> error + config \<times> state" where
  "MegaScraper e sd rp ri mw mh folderpath structure naming per_folder initial_num =
     (if structure \<notin> {''flat'', ''grouped''} then Inl AssertionError
      else if naming \<notin> {''keep'', ''numerical''} then Inl AssertionError
      else if \<not> per_folder > 0 then Inl AssertionError
      else if \<not> initial_num > 0 then Inl AssertionError
      else case urlparse e sd of
        None \<Rightarrow> Inl ValueError
      | Some parsed \<Rightarrow> Inr
        (\<lparr>seed = sd,
          parsed_seed = parsed,
          root = scheme parsed @ ''://'' @ netloc parsed,
          regex_pages = rp,
          regex_images = ri,
          min_width = mw,
          min_height = mh,
          output_folderpath = folderpath,
          output_structure = structure,
          output_naming = naming,
          images_per_folder = per_folder,
          folder_initial_num = initial_num\<rparr>,
         \<lparr>explored = {},
          unexplored = {sd},
          images_urls = {},
          downloaded = {},
          downloaded_idx = 1,
          page_requests = [],
          image_requests = [],
          made_dirs = [],
          saved = []\<rparr>))"

subsection \<open>Extraction\<close>

text \<open>
  Both extraction loops start with the same two lines,
  \<open>if x.startswith('/'): x = self._root + x\<close>.
\<close>

definition with_root :: "config \<Rightarrow> string \<Rightarrow> string" where
  "with_root c x = (if startswith x ''/'' then root c @ x else x)"

text \<open>
  One pass of the loop of \<open>_extract_unexplored_pages\<close>, for the \<open>href\<close> of one element.
  The URL is parsed before anything is asked of it, so a URL that \<open>urlparse\<close> refuses
  ends the loop, and the method, with \<open>ValueError\<close>.
\<close>

definition unexplored_page ::
  "env \<Rightarrow> config \<Rightarrow> state \<Rightarrow> string option \<Rightarrow> string set \<Rightarrow> error + string set" where
  "unexplored_page e c s element unexplored_pages =
     (case element of
        None \<Rightarrow> Inr unexplored_pages
      | Some href0 \<Rightarrow>
          if href0 = [] then Inr unexplored_pages
          else
            let href = with_root c href0
            in case urlparse e href of
                 None \<Rightarrow> Inl ValueError
               | Some parsed_href \<Rightarrow>
                   if href \<notin> explored s \<and> netloc parsed_href = netloc (parsed_seed c)
                   then Inr (insert href unexplored_pages)
                   else Inr unexplored_pages)"

fun unexplored_pages_loop ::
  "env \<Rightarrow> config \<Rightarrow> state \<Rightarrow> string option list \<Rightarrow> string set \<Rightarrow> error + string set" where
  "unexplored_pages_loop e c s [] unexplored_pages = Inr unexplored_pages"
| "unexplored_pages_loop e c s (element # elements) unexplored_pages =
     (case unexplored_page e c s element unexplored_pages of
        Inl err \<Rightarrow> Inl err
      | Inr unexplored_pages' \<Rightarrow> unexplored_pages_loop e c s elements unexplored_pages')"

definition extract_unexplored_pages :: "env \<Rightarrow> config \<Rightarrow> state \<Rightarrow> page \<Rightarrow> error + string set" where
  "extract_unexplored_pages e c s soup = unexplored_pages_loop e c s (a_hrefs soup) {}"

text \<open>
  One pass of the loop of \<open>_extract_images_urls\<close>, for the \<open>src\<close> of one element. A
  \<open>re.search\<close> that raises ends the loop, and the method, with its error.
\<close>

definition image_url_of ::
  "env \<Rightarrow> config \<Rightarrow> string option \<Rightarrow> string set \<Rightarrow> error + string set" where
  "image_url_of e c element urls =
     (case element of
        None \<Rightarrow> Inr urls
      | Some src0 \<Rightarrow>
          if src0 \<noteq> [] \<and> \<not> endswith src0 ''.gif''
          then
            let src = with_root c src0
            in case re_search e (regex_images c) src of
                 None \<Rightarrow> Inl ReError
               | Some found \<Rightarrow> if found then Inr (insert src urls) else Inr urls
          else Inr urls)"

fun images_urls_loop ::
  "env \<Rightarrow> config \<Rightarrow> string option list \<Rightarrow> string set \<Rightarrow> error + string set" where
  "images_urls_loop e c [] urls = Inr urls"
| "images_urls_loop e c (element # elements) urls =
     (case image_url_of e c element urls of
        Inl err \<Rightarrow> Inl err
      | Inr urls' \<Rightarrow> images_urls_loop e c elements urls')"

definition extract_images_urls :: "env \<Rightarrow> config \<Rightarrow> page \<Rightarrow> error + string set" where
  "extract_images_urls e c soup = images_urls_loop e c (img_srcs soup) {}"

subsection \<open>scrape\<close>

text \<open>
  The body of the \<open>while\<close> loop for the URL just popped, up to and including
  \<open>self._explored.add(url)\<close>. \<open>images\<close> is the local variable \<open>images_urls\<close>.
\<close>

definition scrape_page :: "env \<Rightarrow> config \<Rightarrow> string \<Rightarrow> string set \<Rightarrow> state \<Rightarrow> string set result" where
  "scrape_page e c url images s =
     (let s1 = s\<lparr>unexplored := unexplored s - {url},
                 page_requests := page_requests s @ [url]\<rparr>
      in case get_page e url of
           None \<Rightarrow> Raised (RequestError url) s1
         | Some soup \<Rightarrow>
             (case extract_unexplored_pages e c s1 soup of
                Inl err \<Rightarrow> Raised err s1
              | Inr unexplored_pages \<Rightarrow>
                  let s2 = s1\<lparr>unexplored := unexplored s1 \<union> unexplored_pages\<rparr>
                  in case re_search e (regex_pages c) url of
                       None \<Rightarrow> Raised ReError s2
                     | Some found \<Rightarrow>
                         if found
                         then (case extract_images_urls e c soup of
                                 Inl err \<Rightarrow> Raised err s2
                               | Inr urls \<Rightarrow>
                                   Returned (images \<union> urls)
                                     (s2\<lparr>explored := insert url (explored s2)\<rparr>))
                         else Returned images (s2\<lparr>explored := insert url (explored s2)\<rparr>)))"

text \<open>
  The \<open>while\<close> loop. The numeric argument is \<open>max_pages - num_pages\<close>, the passes still
  allowed: the loop stops when it reaches zero (\<open>num_pages == max_pages\<close>) or when
  \<open>unexplored\<close> is empty.
\<close>

primrec scrape_loop :: "env \<Rightarrow> config \<Rightarrow> nat \<Rightarrow> string set \<Rightarrow> state \<Rightarrow> string set result set" where
  "scrape_loop e c 0 images s = {Returned images s}"
| "scrape_loop e c (Suc k) images s =
     (if unexplored s = {} then {Returned images s}
      else (\<Union>url \<in> unexplored s.
              case scrape_page e c url images s of
                Raised err s' \<Rightarrow> {Raised err s'}
              | Returned images' s' \<Rightarrow> scrape_loop e c k images' s'))"

text \<open>The two statements after the loop.\<close>

fun scrape_finish :: "string set result \<Rightarrow> string set result" where
  "scrape_finish (Raised err s) = Raised err s"
| "scrape_finish (Returned images s) =
     Returned (images - images_urls s) (s\<lparr>images_urls := images_urls s \<union> images\<rparr>)"

definition scrape :: "env \<Rightarrow> config \<Rightarrow> int \<Rightarrow> state \<Rightarrow> string set result set" where
  "scrape e c max_pages s =
     (if \<not> max_pages \<ge> 1 then {Raised AssertionError s}
      else scrape_finish ` scrape_loop e c (nat max_pages) {} s)"

subsection \<open>download\<close>

text \<open>
  \<open>os.path.exists(p)\<close>: the path was there before the scraper, or the scraper made it
  by \<open>os.makedirs(p)\<close>, or it saved a file there. The scraper asks this of the output
  folder and of the numbered folders directly under it, which it makes itself.
\<close>

definition path_exists :: "env \<Rightarrow> state \<Rightarrow> string \<Rightarrow> bool" where
  "path_exists e s p = (path_exists0 e p \<or> p \<in> set (made_dirs s) \<or> p \<in> fst ` set (saved s))"

text \<open>\<open>if not os.path.exists(p): os.makedirs(p)\<close>\<close>

definition ensure_dir :: "env \<Rightarrow> string \<Rightarrow> state \<Rightarrow> error + state" where
  "ensure_dir e p s =
     (if \<not> path_exists e s p
      then (if makedirs_ok e p then Inr (s\<lparr>made_dirs := made_dirs s @ [p]\<rparr>)
            else Inl (MakedirsError p))
      else Inr s)"

text \<open>
  \<open>image.save(image_filepath)\<close> and, when it returns, the increment of the index and
  the end of the pass.
\<close>

definition save_image :: "env \<Rightarrow> string \<Rightarrow> string \<Rightarrow> state \<Rightarrow> unit result" where
  "save_image e image_filepath image_url s =
     (if save_ok e image_url image_filepath
      then Returned () (s\<lparr>saved := saved s @ [(image_filepath, image_url)],
                         downloaded_idx := downloaded_idx s + 1\<rparr>)
      else Raised (SaveError image_filepath) s)"

text \<open>
  The name of the file; \<open>None\<close> when neither branch assigns \<open>image_filename\<close>, so that
  its first use raises.
\<close>

definition image_filename :: "config \<Rightarrow> state \<Rightarrow> string \<Rightarrow> string option" where
  "image_filename c s image_url =
     (if output_naming c = ''keep'' then Some (last (split_chr CHR ''/'' image_url))
      else if output_naming c = ''numerical'' then Some (str_int (downloaded_idx s) @ ''.jpg'')
      else None)"

definition image_foldername :: "config \<Rightarrow> state \<Rightarrow> string" where
  "image_foldername c s =
     zfill 4 (str_int (int_truediv (downloaded_idx s - 1) (images_per_folder c)
                        + folder_initial_num c))"

text \<open>The body of the \<open>for\<close> loop for the image URL just popped.\<close>

definition download_image :: "env \<Rightarrow> config \<Rightarrow> string \<Rightarrow> state \<Rightarrow> unit result" where
  "download_image e c image_url s =
     (let s1 = s\<lparr>image_requests := image_requests s @ [image_url]\<rparr>
      in case open_image e image_url of
           None \<Rightarrow> Raised (ImageError image_url) s1
         | Some (width, height) \<Rightarrow>
             let s2 = s1\<lparr>downloaded := insert image_url (downloaded s1)\<rparr>
             in if width \<ge> min_width c \<and> height \<ge> min_height c
                then
                  if output_structure c = ''flat''
                  then (case image_filename c s2 image_url of
                          None \<Rightarrow> Raised UnboundLocalError s2
                        | Some name \<Rightarrow>
                            save_image e (path_join (output_folderpath c) name) image_url s2)
                  else if output_structure c = ''grouped''
                  then
                    if images_per_folder c = 0 then Raised ZeroDivisionError s2
                    else
                      let image_folderpath = path_join (output_folderpath c) (image_foldername c s2)
                      in (case ensure_dir e image_folderpath s2 of
                            Inl err \<Rightarrow> Raised err s2
                          | Inr s3 \<Rightarrow>
                              (case image_filename c s2 image_url of
                                 None \<Rightarrow> Raised UnboundLocalError s3
                               | Some name \<Rightarrow>
                                   save_image e (path_join image_folderpath name) image_url s3))
                  else Raised UnboundLocalError s2
                else Returned () s2)"

text \<open>
  The \<open>for\<close> loop over \<open>range(how_many)\<close>; the numeric argument is the number of passes
  left.
\<close>

primrec download_loop :: "env \<Rightarrow> config \<Rightarrow> nat \<Rightarrow> state \<Rightarrow> unit result set" where
  "download_loop e c 0 s = {Returned () s}"
| "download_loop e c (Suc k) s =
     (let images_to_download = images_urls s - downloaded s
      in if images_to_download = {} then {Returned () s}
         else (\<Union>image_url \<in> images_to_download.
                 case download_image e c image_url s of
                   Raised err s' \<Rightarrow> {Raised err s'}
                 | Returned u s' \<Rightarrow> download_loop e c k s'))"

definition download :: "env \<Rightarrow> config \<Rightarrow> int \<Rightarrow> state \<Rightarrow> unit result set" where
  "download e c how_many s =
     (case ensure_dir e (output_folderpath c) s of
        Inl err \<Rightarrow> {Raised err s}
      | Inr s1 \<Rightarrow> download_loop e c (nat how_many) s1)"

subsection \<open>Calls in sequence\<close>

text \<open>
  The states an object can be in: the state \<open>s0\<close> it starts from and the state after
  any call of \<open>scrape\<close> or \<open>download\<close> on a state it can be in, whether the call
  returned or raised (the object stays usable after an exception).
\<close>

inductive reachable :: "env \<Rightarrow> config \<Rightarrow> state \<Rightarrow> state \<Rightarrow> bool" for e c s0 where
  start: "reachable e c s0 s0"
| after_scrape: "reachable e c s0 s \<Longrightarrow> r \<in> scrape e c max_pages s \<Longrightarrow> reachable e c s0 (state_of r)"
| after_download: "reachable e c s0 s \<Longrightarrow> r \<in> download e c how_many s \<Longrightarrow> reachable e c s0 (state_of r)"

text \<open>
  A sequence of calls of \<open>scrape\<close> that all return: \<open>scrape_calls e c s rs s'\<close> holds when
  the calls lead from \<open>s\<close> to \<open>s'\<close> and return the sets \<open>rs\<close>, in this order. Every call
  has a page budget of its own.
\<close>

inductive scrape_calls :: "env \<Rightarrow> config \<Rightarrow> state \<Rightarrow> string set list \<Rightarrow> state \<Rightarrow> bool" for e c s where
  no_call: "scrape_calls e c s [] s"
| one_more: "scrape_calls e c s rs s' \<Longrightarrow> Returned r s'' \<in> scrape e c max_pages s'
             \<Longrightarrow> scrape_calls e c s (rs @ [r]) s''"

subsection \<open>Notions the properties are stated with\<close>

text \<open>The links of a page that lead to the seed's network location, explored or not.\<close>

definition page_links :: "env \<Rightarrow> config \<Rightarrow> page \<Rightarrow> string set" where
  "page_links e c soup =
     {h. \<exists>href0. Some href0 \<in> set (a_hrefs soup) \<and> href0 \<noteq> [] \<and> h = with_root c href0
           \<and> (\<exists>parsed. urlparse e h = Some parsed \<and> netloc parsed = netloc (parsed_seed c))}"

text \<open>
  The image URLs of the pages \<open>urls\<close>: for every page whose URL matches the page
  regex, the images \<open>_extract_images_urls\<close> finds on it; nothing for a page where the
  request, the search or the extraction raises.
\<close>

definition images_of_page :: "env \<Rightarrow> config \<Rightarrow> string \<Rightarrow> string set" where
  "images_of_page e c url =
     (case get_page e url of
        None \<Rightarrow> {}
      | Some soup \<Rightarrow>
          (case re_search e (regex_pages c) url of
             None \<Rightarrow> {}
           | Some found \<Rightarrow>
               if found
               then (case extract_images_urls e c soup of Inl err \<Rightarrow> {} | Inr urls \<Rightarrow> urls)
               else {}))"

definition images_of_pages :: "env \<Rightarrow> config \<Rightarrow> string set \<Rightarrow> string set" where
  "images_of_pages e c urls = (\<Union>url \<in> urls. images_of_page e c url)"

text \<open>The pages requested between state \<open>s\<close> and a later state \<open>s'\<close>.\<close>

definition pages_since :: "state \<Rightarrow> state \<Rightarrow> string list" where
  "pages_since s s' = drop (length (page_requests s)) (page_requests s')"

text \<open>
  What a run of the loop of \<open>scrape\<close> has done when it stops, by returning or by raising:
  \<open>visited\<close> lists the pages it requested and got, in order.
\<close>

definition loop_returned :: "env \<Rightarrow> config \<Rightarrow> state \<Rightarrow> string set \<Rightarrow> string list \<Rightarrow> string set \<Rightarrow> state \<Rightarrow> bool" where
  "loop_returned e c s images visited images' s' =
     (page_requests s' = page_requests s @ visited
      \<and> images' = images \<union> images_of_pages e c (set visited)
      \<and> images_urls s' = images_urls s
      \<and> explored s' = explored s \<union> set visited
      \<and> (\<forall>u \<in> set visited. \<exists>soup. get_page e u = Some soup
             \<and> page_links e c soup \<subseteq> explored s' \<union> unexplored s'))"

definition loop_raised :: "env \<Rightarrow> config \<Rightarrow> state \<Rightarrow> string list \<Rightarrow> string \<Rightarrow> state \<Rightarrow> bool" where
  "loop_raised e c s visited url s' =
     (get_page e url = None
      \<and> page_requests s' = page_requests s @ visited @ [url]
      \<and> images_urls s' = images_urls s
      \<and> explored s' = explored s \<union> set visited
      \<and> url \<notin> unexplored s'
      \<and> (\<forall>u \<in> set visited. \<exists>soup. get_page e u = Some soup
             \<and> page_links e c soup \<subseteq> explored s' \<union> unexplored s' \<union> {url}))"

text \<open>The pages of the site: what can be reached from the seed by following kept links.\<close>

inductive_set site :: "env \<Rightarrow> config \<Rightarrow> string set" for e c where
  site_seed: "seed c \<in> site e c"
| site_link: "u \<in> site e c \<Longrightarrow> get_page e u = Some soup \<Longrightarrow> h \<in> page_links e c soup \<Longrightarrow> h \<in> site e c"

text \<open>
  The path of the \<open>n\<close>-th saved image (counting from 1) when the naming is numerical and
  the structure is grouped.
\<close>

definition grouped_path :: "config \<Rightarrow> nat \<Rightarrow> string" where
  "grouped_path c n =
     path_join
       (path_join (output_folderpath c)
          (zfill 4 (str_int ((int n - 1) div images_per_folder c + folder_initial_num c))))
       (str_int (int n) @ ''.jpg'')"

text \<open>
  What the image requests, \<open>downloaded\<close> and the saved files have to do with each other:
  a URL is in \<open>downloaded\<close> exactly when it was requested and could be opened; a URL
  that can be opened was requested at most once; and a file was saved from a URL only
  when the URL is in \<open>downloaded\<close> and its image has at least the minimum width and
  height.
\<close>

definition attempts_inv :: "env \<Rightarrow> config \<Rightarrow> state \<Rightarrow> bool" where
  "attempts_inv e c s =
     (\<forall>u. (u \<in> downloaded s \<longleftrightarrow> u \<in> set (image_requests s) \<and> open_image e u \<noteq> None)
        \<and> (open_image e u \<noteq> None \<longrightarrow> count_list (image_requests s) u \<le> 1)
        \<and> (u \<in> snd ` set (saved s) \<longrightarrow>
             u \<in> downloaded s
             \<and> (\<exists>w h. open_image e u = Some (w, h) \<and> w \<ge> min_width c \<and> h \<ge> min_height c)))"

text \<open>
  The index is one more than the number of files saved, and the \<open>n\<close>-th file saved is
  at the grouped path of \<open>n\<close>.
\<close>

definition saved_inv :: "config \<Rightarrow> state \<Rightarrow> bool" where
  "saved_inv c s =
     (downloaded_idx s = 1 + int (length (saved s))
      \<and> (\<forall>n. 1 \<le> n \<and> n \<le> length (saved s) \<longrightarrow> fst (saved s ! (n - 1)) = grouped_path c n))"

text \<open>
  What holds between the passes of the loop of \<open>scrape\<close> as long as nothing raises,
  with \<open>images\<close> the images collected so far in the running call: the seed is explored
  or waiting; nothing outside the site is explored or waiting; the kept links of every
  explored page are explored or waiting; and the collected images are those of the
  explored pages.
\<close>

definition crawl_inv :: "env \<Rightarrow> config \<Rightarrow> string set \<Rightarrow> state \<Rightarrow> bool" where
  "crawl_inv e c images s =
     (seed c \<in> explored s \<union> unexplored s
      \<and> explored s \<union> unexplored s \<subseteq> site e c
      \<and> (\<forall>u \<in> explored s. \<exists>soup. get_page e u = Some soup
             \<and> page_links e c soup \<subseteq> explored s \<union> unexplored s)
      \<and> images_urls s \<union> images = images_of_pages e c (explored s))"

subsection \<open>Collaborators for the examples\<close>

text \<open>
  The scheme and the network location as \<open>urllib.parse.urlsplit\<close> cuts them out of a URL:
  the scheme is what stands before the first colon when that is a letter followed by
  scheme characters, and the network location is what follows \<open>//\<close> up to the next
  \<open>/\<close>, \<open>?\<close> or \<open>#\<close>. A network location with one square bracket and not the other is
  refused with \<open>ValueError\<close>.
\<close>

definition scheme_chars :: string where
  "scheme_chars = ''abcdefghijklmnopqrstuvwxyzABCDEFGHIJKLMNOPQRSTUVWXYZ0123456789+-.''"

definition ascii_lower :: "char \<Rightarrow> char" where
  "ascii_lower ch =
     (case map_of (zip ''ABCDEFGHIJKLMNOPQRSTUVWXYZ'' ''abcdefghijklmnopqrstuvwxyz'') ch of
        None \<Rightarrow> ch
      | Some l \<Rightarrow> l)"

definition urllib_urlparse :: "string \<Rightarrow> parsed_url option" where
  "urllib_urlparse url =
     (let head = takeWhile (\<lambda>ch. ch \<noteq> CHR '':'') url;
          has_scheme = (length head < length url \<and> head \<noteq> []
                        \<and> hd head \<in> set (take 52 scheme_chars)
                        \<and> list_all (\<lambda>ch. ch \<in> set scheme_chars) head);
          rest = (if has_scheme then drop (length head + 1) url else url);
          location = (if take 2 rest = ''//''
                      then takeWhile (\<lambda>ch. ch \<notin> set ''/?#'') (drop 2 rest)
                      else [])
      in if (CHR ''['' \<in> set location) \<noteq> (CHR '']'' \<in> set location) then None
         else Some \<lparr>scheme = (if has_scheme then map ascii_lower head else []),
                     netloc = location\<rparr>)"

text \<open>
  \<open>os.makedirs\<close> refuses the empty path. \<open>image.save\<close> refuses a file name without an
  extension it knows; for the examples these are \<open>.jpg\<close> and \<open>.png\<close>.
\<close>

definition posix_makedirs_ok :: "string \<Rightarrow> bool" where
  "posix_makedirs_ok p = (p \<noteq> [])"

definition pil_save_ok :: "string \<Rightarrow> string \<Rightarrow> bool" where
  "pil_save_ok url p = (endswith p ''.jpg'' \<or> endswith p ''.png'')"

text \<open>
  \<open>re.search\<close> for a pattern without special characters: the pattern occurs in the
  string. The examples use no other patterns.
\<close>

fun literal_search :: "string \<Rightarrow> string \<Rightarrow> bool" where
  "literal_search pat [] = (pat = [])"
| "literal_search pat (ch # s) = (prefix pat (ch # s) \<or> literal_search pat s)"

definition fresh :: "string \<Rightarrow> state" where
  "fresh sd =
     \<lparr>explored = {}, unexplored = {sd}, images_urls = {}, downloaded = {}, downloaded_idx = 1,
      page_requests = [], image_requests = [], made_dirs = [], saved = []\<rparr>"

subsection \<open>Example: a page that links to itself\<close>

text \<open>
  The home page \<open>http://a.b/\<close> carries \<open><a href="/">\<close> and \<open><img src="/i.png">\<close>;
  nothing else answers.
\<close>

definition loop_page :: "string \<Rightarrow> page option" where
  "loop_page url =
     (if url = ''http://a.b/''
      then Some \<lparr>a_hrefs = [Some ''/''], img_srcs = [Some ''/i.png'']\<rparr>
      else None)"

definition loop_env :: env where
  "loop_env =
     \<lparr>urlparse = urllib_urlparse, re_search = (\<lambda>pat s. Some (literal_search pat s)), get_page = loop_page,
      open_image = (\<lambda>u. None), path_exists0 = (\<lambda>p. False),
      makedirs_ok = posix_makedirs_ok, save_ok = pil_save_ok\<rparr>"

definition plain_config :: config where
  "plain_config =
     \<lparr>seed = ''http://a.b/'', parsed_seed = \<lparr>scheme = ''http'', netloc = ''a.b''\<rparr>,
      root = ''http://a.b'', regex_pages = [], regex_images = [], min_width = 0,
      min_height = 0, output_folderpath = ''scraped'', output_structure = ''flat'',
      output_naming = ''keep'', images_per_folder = 100, folder_initial_num = 1\<rparr>"

definition loop_once :: state where
  "loop_once =
     \<lparr>explored = {''http://a.b/''}, unexplored = {''http://a.b/''},
      images_urls = {''http://a.b/i.png''}, downloaded = {}, downloaded_idx = 1,
      page_requests = [''http://a.b/''], image_requests = [], made_dirs = [], saved = []\<rparr>"

definition loop_twice :: state where
  "loop_twice =
     \<lparr>explored = {''http://a.b/''}, unexplored = {},
      images_urls = {''http://a.b/i.png''}, downloaded = {}, downloaded_idx = 1,
      page_requests = [''http://a.b/'', ''http://a.b/''], image_requests = [],
      made_dirs = [], saved = []\<rparr>"

subsection \<open>Example: a page that cannot be fetched\<close>

text \<open>
  The home page \<open>http://a.b/\<close> carries \<open><a href="/p">\<close> and \<open><img src="/i.png">\<close>; the
  request for \<open>http://a.b/p\<close> raises.
\<close>

definition broken_page :: "string \<Rightarrow> page option" where
  "broken_page url =
     (if url = ''http://a.b/''
      then Some \<lparr>a_hrefs = [Some ''/p''], img_srcs = [Some ''/i.png'']\<rparr>
      else None)"

definition broken_env :: env where
  "broken_env =
     \<lparr>urlparse = urllib_urlparse, re_search = (\<lambda>pat s. Some (literal_search pat s)), get_page = broken_page,
      open_image = (\<lambda>u. None), path_exists0 = (\<lambda>p. False),
      makedirs_ok = posix_makedirs_ok, save_ok = pil_save_ok\<rparr>"

definition broken_failed :: state where
  "broken_failed =
     \<lparr>explored = {''http://a.b/''}, unexplored = {}, images_urls = {}, downloaded = {},
      downloaded_idx = 1, page_requests = [''http://a.b/'', ''http://a.b/p''],
      image_requests = [], made_dirs = [], saved = []\<rparr>"

subsection \<open>Example: a link to the same host under another scheme\<close>

text \<open>
  The seed is \<open>https://a.b/\<close>; its page links to \<open>http://a.b/x\<close> and to
  \<open>https://c.d/y\<close>.
\<close>

definition mixed_page :: "string \<Rightarrow> page option" where
  "mixed_page url =
     (if url = ''https://a.b/''
      then Some \<lparr>a_hrefs = [Some ''http://a.b/x'', Some ''https://c.d/y''], img_srcs = []\<rparr>
      else None)"

definition mixed_env :: env where
  "mixed_env =
     \<lparr>urlparse = urllib_urlparse, re_search = (\<lambda>pat s. Some (literal_search pat s)), get_page = mixed_page,
      open_image = (\<lambda>u. None), path_exists0 = (\<lambda>p. False),
      makedirs_ok = posix_makedirs_ok, save_ok = pil_save_ok\<rparr>"

definition secure_config :: config where
  "secure_config =
     \<lparr>seed = ''https://a.b/'', parsed_seed = \<lparr>scheme = ''https'', netloc = ''a.b''\<rparr>,
      root = ''https://a.b'', regex_pages = [], regex_images = [], min_width = 0,
      min_height = 0, output_folderpath = ''scraped'', output_structure = ''flat'',
      output_naming = ''keep'', images_per_folder = 100, folder_initial_num = 1\<rparr>"

definition mixed_once :: state where
  "mixed_once =
     \<lparr>explored = {''https://a.b/''}, unexplored = {''http://a.b/x''}, images_urls = {},
      downloaded = {}, downloaded_idx = 1, page_requests = [''https://a.b/''],
      image_requests = [], made_dirs = [], saved = []\<rparr>"

subsection \<open>Example: a site of two pages and three images\<close>

text \<open>
  The home page \<open>http://a.b/\<close> links to \<open>/p\<close> and to another host and shows \<open>/i.png\<close>
  and \<open>/j.gif\<close>; the page \<open>http://a.b/p\<close> links back home and shows \<open>/k.png\<close> and
  \<open>/i.png\<close>. The image \<open>i.png\<close> is 10 by 10 pixels and \<open>k.png\<close> is 1 by 1. The
  scraper is configured for numbered files in grouped folders and a minimum size of
  5 by 5.
\<close>

definition small_page :: "string \<Rightarrow> page option" where
  "small_page url =
     (if url = ''http://a.b/''
      then Some \<lparr>a_hrefs = [Some ''/p'', Some ''http://x.y/q'', None],
                 img_srcs = [Some ''/i.png'', Some ''/j.gif'']\<rparr>
      else if url = ''http://a.b/p''
      then Some \<lparr>a_hrefs = [Some ''/''], img_srcs = [Some ''/k.png'', Some ''/i.png'']\<rparr>
      else None)"

definition small_image :: "string \<Rightarrow> (int \<times> int) option" where
  "small_image url =
     (if url = ''http://a.b/i.png'' then Some (10, 10)
      else if url = ''http://a.b/k.png'' then Some (1, 1)
      else None)"

definition small_env :: env where
  "small_env =
     \<lparr>urlparse = urllib_urlparse, re_search = (\<lambda>pat s. Some (literal_search pat s)), get_page = small_page,
      open_image = small_image, path_exists0 = (\<lambda>p. False),
      makedirs_ok = posix_makedirs_ok, save_ok = pil_save_ok\<rparr>"

definition grouped_config :: config where
  "grouped_config =
     \<lparr>seed = ''http://a.b/'', parsed_seed = \<lparr>scheme = ''http'', netloc = ''a.b''\<rparr>,
      root = ''http://a.b'', regex_pages = [], regex_images = [], min_width = 5,
      min_height = 5, output_folderpath = ''out'', output_structure = ''grouped'',
      output_naming = ''numerical'', images_per_folder = 100, folder_initial_num = 1\<rparr>"

definition small_first :: state where
  "small_first =
     \<lparr>explored = {''http://a.b/''}, unexplored = {''http://a.b/p''},
      images_urls = {''http://a.b/i.png''}, downloaded = {}, downloaded_idx = 1,
      page_requests = [''http://a.b/''], image_requests = [], made_dirs = [], saved = []\<rparr>"

definition small_crawled :: state where
  "small_crawled =
     \<lparr>explored = {''http://a.b/'', ''http://a.b/p''}, unexplored = {},
      images_urls = {''http://a.b/i.png'', ''http://a.b/k.png''}, downloaded = {},
      downloaded_idx = 1, page_requests = [''http://a.b/'', ''http://a.b/p''],
      image_requests = [], made_dirs = [], saved = []\<rparr>"

definition small_downloaded :: state where
  "small_downloaded =
     \<lparr>explored = {''http://a.b/'', ''http://a.b/p''}, unexplored = {},
      images_urls = {''http://a.b/i.png'', ''http://a.b/k.png''},
      downloaded = {''http://a.b/i.png'', ''http://a.b/k.png''}, downloaded_idx = 2,
      page_requests = [''http://a.b/'', ''http://a.b/p''],
      image_requests = [''http://a.b/k.png'', ''http://a.b/i.png''],
      made_dirs = [''out'', ''out/0001''],
      saved = [(''out/0001/1.jpg'', ''http://a.b/i.png'')]\<rparr>"

subsection \<open>Example: an image whose name has no extension\<close>

text \<open>
  The home page \<open>http://a.b/\<close> shows \<open>/pic\<close>, an image of 10 by 10 pixels. With the
  defaults (the original names, one flat folder, no minimum size) the file is to be
  \<open>scraped/pic\<close>, which \<open>image.save\<close> refuses.
\<close>

definition pic_page :: "string \<Rightarrow> page option" where
  "pic_page url =
     (if url = ''http://a.b/''
      then Some \<lparr>a_hrefs = [], img_srcs = [Some ''/pic'']\<rparr>
      else None)"

definition pic_image :: "string \<Rightarrow> (int \<times> int) option" where
  "pic_image url = (if url = ''http://a.b/pic'' then Some (10, 10) else None)"

definition pic_env :: env where
  "pic_env =
     \<lparr>urlparse = urllib_urlparse, re_search = (\<lambda>pat s. Some (literal_search pat s)), get_page = pic_page,
      open_image = pic_image, path_exists0 = (\<lambda>p. False),
      makedirs_ok = posix_makedirs_ok, save_ok = pil_save_ok\<rparr>"

definition pic_crawled :: state where
  "pic_crawled =
     \<lparr>explored = {''http://a.b/''}, unexplored = {}, images_urls = {''http://a.b/pic''},
      downloaded = {}, downloaded_idx = 1, page_requests = [''http://a.b/''],
      image_requests = [], made_dirs = [], saved = []\<rparr>"

definition pic_failed :: state where
  "pic_failed =
     \<lparr>explored = {''http://a.b/''}, unexplored = {}, images_urls = {''http://a.b/pic''},
      downloaded = {''http://a.b/pic''}, downloaded_idx = 1,
      page_requests = [''http://a.b/''], image_requests = [''http://a.b/pic''],
      made_dirs = [''scraped''], saved = []\<rparr>"

subsection \<open>Example: an empty output folder\<close>

text \<open>The defaults, but for the output folder, which is the empty path.\<close>

definition rootless_config :: config where
  "rootless_config =
     \<lparr>seed = ''http://a.b/'', parsed_seed = \<lparr>scheme = ''http'', netloc = ''a.b''\<rparr>,
      root = ''http://a.b'', regex_pages = [], regex_images = [], min_width = 0,
      min_height = 0, output_folderpath = [], output_structure = ''flat'',
      output_naming = ''keep'', images_per_folder = 100, folder_initial_num = 1\<rparr>"

section \<open>Properties\<close>

subsection \<open>The extraction loops\<close>

lemma unexplored_page_explored:
  assumes "explored s' = explored s"
  shows "unexplored_page e c s' element acc = unexplored_page e c s element acc"
  unfolding unexplored_page_def assms ..

lemma unexplored_pages_loop_explored:
  assumes "explored s' = explored s"
  shows "unexplored_pages_loop e c s' elements acc = unexplored_pages_loop e c s elements acc"
proof (induction elements arbitrary: acc)
  case Nil
  show ?case by simp
next
  case (Cons element elements)
  show ?case
    unfolding unexplored_pages_loop.simps unexplored_page_explored [OF assms] Cons.IH ..
qed

lemma extract_unexplored_pages_explored:
  "explored s' = explored s \<Longrightarrow>
   extract_unexplored_pages e c s' soup = extract_unexplored_pages e c s soup"
  unfolding extract_unexplored_pages_def by (rule unexplored_pages_loop_explored)

lemma unexplored_page_Inr:
  assumes "unexplored_page e c s element acc = Inr acc'"
  shows "acc' = acc \<union> {h. \<exists>href0. element = Some href0 \<and> href0 \<noteq> [] \<and> h = with_root c href0
                 \<and> h \<notin> explored s
                 \<and> (\<exists>parsed. urlparse e h = Some parsed \<and> netloc parsed = netloc (parsed_seed c))}"
  using assms
  by (auto simp: unexplored_page_def Let_def split: option.splits if_splits)

lemma unexplored_page_Inl:
  "unexplored_page e c s element acc = Inl err \<Longrightarrow> err = ValueError"
  by (auto simp: unexplored_page_def Let_def split: option.splits if_splits)

lemma unexplored_pages_loop_Inr:
  assumes "unexplored_pages_loop e c s elements acc = Inr links"
  shows "links = acc \<union> {h. \<exists>href0. Some href0 \<in> set elements \<and> href0 \<noteq> [] \<and> h = with_root c href0
                 \<and> h \<notin> explored s
                 \<and> (\<exists>parsed. urlparse e h = Some parsed \<and> netloc parsed = netloc (parsed_seed c))}"
  using assms
proof (induction elements arbitrary: acc)
  case Nil
  then show ?case by simp
next
  case (Cons element elements)
  from Cons.prems obtain acc' where one: "unexplored_page e c s element acc = Inr acc'"
    and more: "unexplored_pages_loop e c s elements acc' = Inr links"
    by (auto split: sum.splits)
  have "links = acc' \<union> {h. \<exists>href0. Some href0 \<in> set elements \<and> href0 \<noteq> [] \<and> h = with_root c href0
                 \<and> h \<notin> explored s
                 \<and> (\<exists>parsed. urlparse e h = Some parsed \<and> netloc parsed = netloc (parsed_seed c))}"
    (is "links = acc' \<union> ?rest")
    by (rule Cons.IH [OF more])
  moreover have "acc' = acc \<union> {h. \<exists>href0. element = Some href0 \<and> href0 \<noteq> [] \<and> h = with_root c href0
                 \<and> h \<notin> explored s
                 \<and> (\<exists>parsed. urlparse e h = Some parsed \<and> netloc parsed = netloc (parsed_seed c))}"
    (is "acc' = acc \<union> ?one")
    by (rule unexplored_page_Inr [OF one])
  moreover have "{h. \<exists>href0. Some href0 \<in> set (element # elements) \<and> href0 \<noteq> [] \<and> h = with_root c href0
                 \<and> h \<notin> explored s
                 \<and> (\<exists>parsed. urlparse e h = Some parsed \<and> netloc parsed = netloc (parsed_seed c))}
      = ?one \<union> ?rest"
    by (simp only: set_simps insert_iff) blast
  ultimately show ?case
    by (simp only: Un_assoc)
qed

lemma unexplored_pages_loop_Inl:
  "unexplored_pages_loop e c s elements acc = Inl err \<Longrightarrow> err = ValueError"
  by (induction elements arbitrary: acc) (auto split: sum.splits dest: unexplored_page_Inl)

lemma extract_unexplored_pages_Inr:
  "extract_unexplored_pages e c s soup = Inr links \<Longrightarrow> links = page_links e c soup - explored s"
proof -
  assume "extract_unexplored_pages e c s soup = Inr links"
  then have "links = {} \<union> {h. \<exists>href0. Some href0 \<in> set (a_hrefs soup) \<and> href0 \<noteq> [] \<and> h = with_root c href0
                 \<and> h \<notin> explored s
                 \<and> (\<exists>parsed. urlparse e h = Some parsed \<and> netloc parsed = netloc (parsed_seed c))}"
    unfolding extract_unexplored_pages_def by (rule unexplored_pages_loop_Inr)
  then show ?thesis
    unfolding page_links_def by blast
qed

lemma extract_unexplored_pages_Inl:
  "extract_unexplored_pages e c s soup = Inl err \<Longrightarrow> err = ValueError"
  unfolding extract_unexplored_pages_def by (rule unexplored_pages_loop_Inl)

lemma with_root_gif:
  assumes "endswith (with_root c x) ''.gif''"
  shows "endswith x ''.gif''"
proof (cases "startswith x ''/''")
  case False
  with assms show ?thesis by (simp add: with_root_def)
next
  case True
  then obtain rest where x: "x = CHR ''/'' # rest"
    by (auto simp: startswith_def prefix_def)
  from assms True have "suffix ''.gif'' (root c @ x)"
    by (simp add: with_root_def endswith_def)
  then consider "suffix ''.gif'' x" | xs' where "''.gif'' = xs' @ x"
    by (auto simp: suffix_append)
  then show ?thesis
  proof cases
    case 1
    then show ?thesis by (simp add: endswith_def)
  next
    case 2
    then have "CHR ''/'' \<in> set ''.gif''"
      unfolding x by (metis in_set_conv_decomp)
    then show ?thesis by simp
  qed
qed

lemma image_url_of_Inl:
  "image_url_of e c element urls = Inl err \<Longrightarrow> err = ReError"
  by (auto simp: image_url_of_def Let_def split: option.splits if_splits)

lemma images_urls_loop_Inl:
  "images_urls_loop e c elements urls = Inl err \<Longrightarrow> err = ReError"
  by (induction elements arbitrary: urls) (auto split: sum.splits dest: image_url_of_Inl)

lemma extract_images_urls_Inl:
  "extract_images_urls e c soup = Inl err \<Longrightarrow> err = ReError"
  unfolding extract_images_urls_def by (rule images_urls_loop_Inl)

lemma image_url_of_no_gif:
  assumes "image_url_of e c element urls = Inr urls'"
    and "\<And>u. u \<in> urls \<Longrightarrow> \<not> endswith u ''.gif''"
    and "u \<in> urls'"
  shows "\<not> endswith u ''.gif''"
proof (cases "u \<in> urls")
  case True
  then show ?thesis by (rule assms(2))
next
  case False
  with assms(1,3) obtain src0 where "\<not> endswith src0 ''.gif''" "u = with_root c src0"
    by (auto simp: image_url_of_def Let_def split: option.splits if_splits)
  with with_root_gif [of c src0] show ?thesis by blast
qed

lemma images_urls_loop_no_gif:
  assumes "images_urls_loop e c elements urls = Inr urls'"
    and "\<And>u. u \<in> urls \<Longrightarrow> \<not> endswith u ''.gif''"
    and "u \<in> urls'"
  shows "\<not> endswith u ''.gif''"
  using assms
proof (induction elements arbitrary: urls)
  case Nil
  then show ?case by simp
next
  case (Cons element elements)
  from Cons.prems(1) obtain urls1 where one: "image_url_of e c element urls = Inr urls1"
    and more: "images_urls_loop e c elements urls1 = Inr urls'"
    by (auto split: sum.splits)
  have "\<not> endswith v ''.gif''" if "v \<in> urls1" for v
    using one Cons.prems(2) that by (rule image_url_of_no_gif)
  with more show ?case
    using Cons.prems(3) by (rule Cons.IH)
qed

lemma extract_images_urls_no_gif:
  assumes "extract_images_urls e c soup = Inr urls" and "u \<in> urls"
  shows "\<not> endswith u ''.gif''"
proof (rule images_urls_loop_no_gif)
  from assms(1) show "images_urls_loop e c (img_srcs soup) {} = Inr urls"
    by (simp add: extract_images_urls_def)
qed (use assms(2) in simp_all)

subsection \<open>Rules for the loops and for sequences of calls\<close>

lemma scrape_loop_rule:
  assumes "r \<in> scrape_loop e c k images s" and "P images s"
    and step: "\<And>url images s. P images s \<Longrightarrow> url \<in> unexplored s \<Longrightarrow>
           (case scrape_page e c url images s of
              Raised err s' \<Rightarrow> Q err s'
            | Returned images' s' \<Rightarrow> P images' s')"
  shows "case r of Raised err s' \<Rightarrow> Q err s' | Returned images' s' \<Rightarrow> P images' s'"
  using assms(1,2)
proof (induction k arbitrary: images s)
  case 0
  then show ?case by simp
next
  case (Suc k)
  show ?case
  proof (cases "unexplored s = {}")
    case True
    with Suc.prems show ?thesis by simp
  next
    case False
    with Suc.prems(1) obtain url where url: "url \<in> unexplored s"
      and r: "r \<in> (case scrape_page e c url images s of
                Raised err s' \<Rightarrow> {Raised err s'}
              | Returned images' s' \<Rightarrow> scrape_loop e c k images' s')"
      by auto
    from step [OF Suc.prems(2) url] r show ?thesis
      by (cases "scrape_page e c url images s") (auto intro: Suc.IH)
  qed
qed

lemma download_loop_rule:
  assumes "r \<in> download_loop e c k s" and "P s"
    and step: "\<And>u s. P s \<Longrightarrow> u \<in> images_urls s - downloaded s \<Longrightarrow>
           (case download_image e c u s of
              Raised err s' \<Rightarrow> Q err s'
            | Returned v s' \<Rightarrow> P s')"
  shows "case r of Raised err s' \<Rightarrow> Q err s' | Returned v s' \<Rightarrow> P s'"
  using assms(1,2)
proof (induction k arbitrary: s)
  case 0
  then show ?case by simp
next
  case (Suc k)
  show ?case
  proof (cases "images_urls s - downloaded s = {}")
    case True
    with Suc.prems show ?thesis by simp
  next
    case False
    with Suc.prems(1) obtain u where u: "u \<in> images_urls s - downloaded s"
      and r: "r \<in> (case download_image e c u s of
                Raised err s' \<Rightarrow> {Raised err s'}
              | Returned v s' \<Rightarrow> download_loop e c k s')"
      by (auto simp: Let_def)
    from step [OF Suc.prems(2) u] r show ?thesis
      by (cases "download_image e c u s") (auto intro: Suc.IH)
  qed
qed

lemma scrape_state_invariant:
  assumes r: "r \<in> scrape e c max_pages s" and I: "I s"
    and page: "\<And>url images s. I s \<Longrightarrow> url \<in> unexplored s \<Longrightarrow> I (state_of (scrape_page e c url images s))"
    and finish: "\<And>s X. I s \<Longrightarrow> I (s\<lparr>images_urls := X\<rparr>)"
  shows "I (state_of r)"
proof (cases "max_pages \<ge> 1")
  case False
  with r I show ?thesis by (simp add: scrape_def)
next
  case True
  with r obtain r0 where r0: "r0 \<in> scrape_loop e c (nat max_pages) {} s" and rr: "r = scrape_finish r0"
    by (auto simp: scrape_def)
  have "case r0 of Raised err s' \<Rightarrow> I s' | Returned images' s' \<Rightarrow> I s'"
  proof (rule scrape_loop_rule [OF r0, where P = "\<lambda>images s. I s" and Q = "\<lambda>err s. I s"])
    show "I s" by (rule I)
  next
    fix url images s
    assume "I s" "url \<in> unexplored s"
    from page [OF this, of images]
    show "case scrape_page e c url images s of Raised err s' \<Rightarrow> I s' | Returned images' s' \<Rightarrow> I s'"
      by (cases "scrape_page e c url images s") auto
  qed
  with rr show ?thesis
    by (cases r0) (auto intro: finish)
qed

lemma download_state_invariant:
  assumes r: "r \<in> download e c how_many s" and I: "I s"
    and dir: "\<And>s p s'. I s \<Longrightarrow> ensure_dir e p s = Inr s' \<Longrightarrow> I s'"
    and image: "\<And>u s. I s \<Longrightarrow> u \<in> images_urls s - downloaded s \<Longrightarrow> I (state_of (download_image e c u s))"
  shows "I (state_of r)"
proof (cases "ensure_dir e (output_folderpath c) s")
  case (Inl err)
  with r I show ?thesis by (simp add: download_def)
next
  case (Inr s1)
  with r have r0: "r \<in> download_loop e c (nat how_many) s1"
    by (simp add: download_def)
  have "case r of Raised err s' \<Rightarrow> I s' | Returned v s' \<Rightarrow> I s'"
  proof (rule download_loop_rule [OF r0, where P = I and Q = "\<lambda>err s. I s"])
    show "I s1" by (rule dir [OF I Inr])
  next
    fix u s
    assume "I s" "u \<in> images_urls s - downloaded s"
    from image [OF this]
    show "case download_image e c u s of Raised err s' \<Rightarrow> I s' | Returned v s' \<Rightarrow> I s'"
      by (cases "download_image e c u s") auto
  qed
  then show ?thesis by (cases r) auto
qed

lemma reachable_invariant:
  assumes "reachable e c s0 s" and "I s0"
    and page: "\<And>url images s. I s \<Longrightarrow> url \<in> unexplored s \<Longrightarrow> I (state_of (scrape_page e c url images s))"
    and finish: "\<And>s X. I s \<Longrightarrow> I (s\<lparr>images_urls := X\<rparr>)"
    and dir: "\<And>s p s'. I s \<Longrightarrow> ensure_dir e p s = Inr s' \<Longrightarrow> I s'"
    and image: "\<And>u s. I s \<Longrightarrow> u \<in> images_urls s - downloaded s \<Longrightarrow> I (state_of (download_image e c u s))"
  shows "I s"
  using assms(1,2)
proof (induction rule: reachable.induct)
  case start
  then show ?case .
next
  case (after_scrape s r max_pages)
  then show ?case
    by (intro scrape_state_invariant [where I = I, OF after_scrape.hyps(2)] page finish) auto
next
  case (after_download s r how_many)
  then show ?case
    by (intro download_state_invariant [where I = I, OF after_download.hyps(2)] image)
       (auto intro: dir)
qed

subsection \<open>What the methods leave alone, and what the loop of scrape has done\<close>

lemma scrape_page_frame:
  "images_urls (state_of (scrape_page e c url images s)) = images_urls s"
  "downloaded (state_of (scrape_page e c url images s)) = downloaded s"
  "downloaded_idx (state_of (scrape_page e c url images s)) = downloaded_idx s"
  "image_requests (state_of (scrape_page e c url images s)) = image_requests s"
  "made_dirs (state_of (scrape_page e c url images s)) = made_dirs s"
  "saved (state_of (scrape_page e c url images s)) = saved s"
  by (simp_all add: scrape_page_def Let_def split: option.splits sum.splits)

lemma ensure_dir_frame:
  assumes "ensure_dir e p s = Inr s'"
  shows "images_urls s' = images_urls s"
    and "explored s' = explored s"
    and "unexplored s' = unexplored s"
    and "page_requests s' = page_requests s"
    and "downloaded s' = downloaded s"
    and "downloaded_idx s' = downloaded_idx s"
    and "image_requests s' = image_requests s"
    and "saved s' = saved s"
  using assms by (auto simp: ensure_dir_def split: if_splits)

lemma save_image_frame:
  "images_urls (state_of (save_image e p u s)) = images_urls s"
  "explored (state_of (save_image e p u s)) = explored s"
  "unexplored (state_of (save_image e p u s)) = unexplored s"
  "page_requests (state_of (save_image e p u s)) = page_requests s"
  "downloaded (state_of (save_image e p u s)) = downloaded s"
  "image_requests (state_of (save_image e p u s)) = image_requests s"
  by (simp_all add: save_image_def)

lemma download_image_frame:
  "images_urls (state_of (download_image e c u s)) = images_urls s"
  "explored (state_of (download_image e c u s)) = explored s"
  "unexplored (state_of (download_image e c u s)) = unexplored s"
  "page_requests (state_of (download_image e c u s)) = page_requests s"
  by (simp_all add: download_image_def Let_def save_image_def ensure_dir_def
        split: option.splits prod.splits)

lemma scrape_page_alt:
  "scrape_page e c url images s =
     (let s1 = s\<lparr>unexplored := unexplored s - {url},
                 page_requests := page_requests s @ [url]\<rparr>
      in case get_page e url of
           None \<Rightarrow> Raised (RequestError url) s1
         | Some soup \<Rightarrow>
             (case extract_unexplored_pages e c s soup of
                Inl err \<Rightarrow> Raised err s1
              | Inr unexplored_pages \<Rightarrow>
                  let s2 = s1\<lparr>unexplored := unexplored s1 \<union> unexplored_pages\<rparr>
                  in case re_search e (regex_pages c) url of
                       None \<Rightarrow> Raised ReError s2
                     | Some found \<Rightarrow>
                         if found
                         then (case extract_images_urls e c soup of
                                 Inl err \<Rightarrow> Raised err s2
                               | Inr urls \<Rightarrow>
                                   Returned (images \<union> urls)
                                     (s2\<lparr>explored := insert url (explored s2)\<rparr>))
                         else Returned images (s2\<lparr>explored := insert url (explored s2)\<rparr>)))"
proof -
  have same: "extract_unexplored_pages e c
          (s\<lparr>unexplored := unexplored s - {url}, page_requests := page_requests s @ [url]\<rparr>) soup
        = extract_unexplored_pages e c s soup" for soup
    by (rule extract_unexplored_pages_explored) simp
  show ?thesis
    unfolding scrape_page_def Let_def same ..
qed

lemma scrape_page_None:
  "get_page e url = None \<Longrightarrow>
   scrape_page e c url images s =
     Raised (RequestError url)
       (s\<lparr>unexplored := unexplored s - {url}, page_requests := page_requests s @ [url]\<rparr>)"
  by (simp add: scrape_page_def)

lemma scrape_page_RequestError:
  assumes "scrape_page e c url images s = Raised (RequestError url') s'"
  shows "url' = url" and "get_page e url = None"
    and "s' = s\<lparr>unexplored := unexplored s - {url}, page_requests := page_requests s @ [url]\<rparr>"
proof -
  have "url' = url \<and> get_page e url = None
    \<and> s' = s\<lparr>unexplored := unexplored s - {url}, page_requests := page_requests s @ [url]\<rparr>"
  proof (cases "get_page e url")
    case None
    with assms show ?thesis by (auto simp: scrape_page_None)
  next
    case (Some soup)
    show ?thesis
    proof (cases "extract_unexplored_pages e c s soup")
      case (Inl err)
      with Some assms extract_unexplored_pages_Inl [OF Inl] show ?thesis
        by (simp add: scrape_page_alt)
    next
      case (Inr links)
      with Some assms show ?thesis
        by (auto simp: scrape_page_alt Let_def split: option.splits if_splits sum.splits
              dest: extract_images_urls_Inl)
    qed
  qed
  then show "url' = url" and "get_page e url = None"
    and "s' = s\<lparr>unexplored := unexplored s - {url}, page_requests := page_requests s @ [url]\<rparr>"
    by simp_all
qed

lemma scrape_page_Returned:
  assumes "scrape_page e c url images s = Returned images' s'"
  shows "\<exists>soup. get_page e url = Some soup
    \<and> images' = images \<union> images_of_page e c url
    \<and> s' = s\<lparr>unexplored := (unexplored s - {url}) \<union> (page_links e c soup - explored s),
             page_requests := page_requests s @ [url],
             explored := insert url (explored s)\<rparr>"
proof (cases "get_page e url")
  case None
  with assms show ?thesis by (simp add: scrape_page_None)
next
  case (Some soup)
  show ?thesis
  proof (cases "extract_unexplored_pages e c s soup")
    case (Inl err)
    with Some assms show ?thesis by (simp add: scrape_page_alt)
  next
    case (Inr links)
    note links = extract_unexplored_pages_Inr [OF Inr]
    from Some Inr assms show ?thesis
      unfolding links
      by (auto simp: scrape_page_alt Let_def images_of_page_def
            split: option.splits if_splits sum.splits)
  qed
qed

lemma scrape_page_unexplored_links:
  "unexplored (state_of (scrape_page e c url images s))
     \<subseteq> unexplored s \<union> {h. \<exists>soup. get_page e url = Some soup \<and> h \<in> page_links e c soup}"
proof (cases "get_page e url")
  case None
  then show ?thesis by (auto simp: scrape_page_None)
next
  case (Some soup)
  show ?thesis
  proof (cases "extract_unexplored_pages e c s soup")
    case (Inl err)
    with Some show ?thesis by (auto simp: scrape_page_alt)
  next
    case (Inr links)
    note links = extract_unexplored_pages_Inr [OF Inr]
    from Some Inr show ?thesis
      unfolding links
      by (auto simp: scrape_page_alt Let_def split: option.splits if_splits sum.splits)
  qed
qed

lemma scrape_loop_trace:
  assumes "r \<in> scrape_loop e c k images s"
  shows "case r of
           Raised err s' \<Rightarrow>
             images_urls s' = images_urls s
             \<and> (\<forall>url. err = RequestError url \<longrightarrow> (\<exists>visited. loop_raised e c s visited url s'))
         | Returned images' s' \<Rightarrow> (\<exists>visited. loop_returned e c s images visited images' s')"
proof (rule scrape_loop_rule [OF assms,
    where P = "\<lambda>images' s'. \<exists>visited. loop_returned e c s images visited images' s'"])
  show "\<exists>visited. loop_returned e c s images visited images s"
    by (rule exI [of _ "[]"]) (simp add: loop_returned_def images_of_pages_def)
next
  fix url im and st :: state
  assume "\<exists>visited. loop_returned e c s images visited im st" and url: "url \<in> unexplored st"
  then obtain visited where v: "loop_returned e c s images visited im st" by blast
  have old: "\<And>u. u \<in> set visited \<Longrightarrow> \<exists>soup. get_page e u = Some soup
            \<and> page_links e c soup \<subseteq> explored st \<union> unexplored st"
    using v unfolding loop_returned_def by blast
  from v have same: "images_urls st = images_urls s"
    by (simp add: loop_returned_def)
  show "case scrape_page e c url im st of
          Raised err s' \<Rightarrow>
            images_urls s' = images_urls s
            \<and> (\<forall>url. err = RequestError url \<longrightarrow> (\<exists>visited. loop_raised e c s visited url s'))
        | Returned images' s' \<Rightarrow> (\<exists>visited. loop_returned e c s images visited images' s')"
  proof (cases "scrape_page e c url im st")
    case (Raised err s')
    from scrape_page_frame(1) [of e c url im st] Raised same
    have imgs: "images_urls s' = images_urls s" by simp
    have "\<exists>visited. loop_raised e c s visited url' s'" if "err = RequestError url'" for url'
    proof -
      from Raised that have r: "scrape_page e c url im st = Raised (RequestError url') s'"
        by simp
      note f = scrape_page_RequestError [OF r]
      let ?s1 = "st\<lparr>unexplored := unexplored st - {url}, page_requests := page_requests st @ [url]\<rparr>"
      have "loop_raised e c s visited url ?s1"
        unfolding loop_raised_def
      proof (intro conjI ballI)
        fix u assume "u \<in> set visited"
        from old [OF this] obtain soup' where "get_page e u = Some soup'"
          "page_links e c soup' \<subseteq> explored st \<union> unexplored st" by blast
        moreover have "explored st \<union> unexplored st \<subseteq> explored ?s1 \<union> unexplored ?s1 \<union> {url}"
          by auto
        ultimately show "\<exists>soup. get_page e u = Some soup
              \<and> page_links e c soup \<subseteq> explored ?s1 \<union> unexplored ?s1 \<union> {url}"
          by blast
      qed (use v f(2) in \<open>simp_all add: loop_returned_def\<close>)
      then show ?thesis
        unfolding f(1) f(3) ..
    qed
    with imgs Raised show ?thesis by simp
  next
    case (Returned images' s')
    from scrape_page_Returned [OF Returned] obtain soup where
      Some: "get_page e url = Some soup"
      and images': "images' = im \<union> images_of_page e c url"
      and s': "s' = st\<lparr>unexplored := (unexplored st - {url}) \<union> (page_links e c soup - explored st),
             page_requests := page_requests st @ [url],
             explored := insert url (explored st)\<rparr>"
      by blast
    let ?s1 = "st\<lparr>unexplored := (unexplored st - {url}) \<union> (page_links e c soup - explored st),
          page_requests := page_requests st @ [url],
          explored := insert url (explored st)\<rparr>"
    have new: "explored st \<union> unexplored st \<subseteq> explored ?s1 \<union> unexplored ?s1"
      by auto
    have "loop_returned e c s images (visited @ [url]) (im \<union> images_of_page e c url) ?s1"
      unfolding loop_returned_def
    proof (intro conjI ballI)
      fix u assume "u \<in> set (visited @ [url])"
      then consider "u \<in> set visited" | "u = url" by auto
      then show "\<exists>soup. get_page e u = Some soup
            \<and> page_links e c soup \<subseteq> explored ?s1 \<union> unexplored ?s1"
      proof cases
        case 1
        from old [OF this] obtain soup' where "get_page e u = Some soup'"
          "page_links e c soup' \<subseteq> explored st \<union> unexplored st" by blast
        with new show ?thesis by blast
      next
        case 2
        have "page_links e c soup \<subseteq> explored ?s1 \<union> unexplored ?s1" by auto
        with 2 Some show ?thesis by blast
      qed
    qed (use v in \<open>auto simp: loop_returned_def images_of_pages_def\<close>)
    then have "\<exists>visited. loop_returned e c s images visited images' s'"
      unfolding images' s' ..
    with Returned show ?thesis by simp
  qed
qed

lemma scrape_page_requests:
  "page_requests (state_of (scrape_page e c url images s)) = page_requests s @ [url]"
  by (simp add: scrape_page_def Let_def split: option.splits sum.splits)

lemma scrape_loop_requests:
  assumes "r \<in> scrape_loop e c k images s"
  shows "case r of
           Raised err s' \<Rightarrow>
             (\<exists>visited url. page_requests s' = page_requests s @ visited @ [url]
                \<and> (\<forall>u \<in> set visited. get_page e u \<noteq> None)
                \<and> (get_page e url = None \<longrightarrow> err = RequestError url))
         | Returned images' s' \<Rightarrow>
             (\<exists>visited. page_requests s' = page_requests s @ visited
                \<and> (\<forall>u \<in> set visited. get_page e u \<noteq> None))"
proof (rule scrape_loop_rule [OF assms,
    where P = "\<lambda>images' s'. \<exists>visited. page_requests s' = page_requests s @ visited
                \<and> (\<forall>u \<in> set visited. get_page e u \<noteq> None)"])
  show "\<exists>visited. page_requests s = page_requests s @ visited
          \<and> (\<forall>u \<in> set visited. get_page e u \<noteq> None)"
    by (rule exI [of _ "[]"]) simp
next
  fix url im and st :: state
  assume "\<exists>visited. page_requests st = page_requests s @ visited
            \<and> (\<forall>u \<in> set visited. get_page e u \<noteq> None)"
  then obtain visited where req: "page_requests st = page_requests s @ visited"
    and got: "\<forall>u \<in> set visited. get_page e u \<noteq> None" by blast
  show "case scrape_page e c url im st of
          Raised err s' \<Rightarrow>
            (\<exists>visited url. page_requests s' = page_requests s @ visited @ [url]
               \<and> (\<forall>u \<in> set visited. get_page e u \<noteq> None)
               \<and> (get_page e url = None \<longrightarrow> err = RequestError url))
        | Returned images' s' \<Rightarrow>
            (\<exists>visited. page_requests s' = page_requests s @ visited
               \<and> (\<forall>u \<in> set visited. get_page e u \<noteq> None))"
  proof (cases "scrape_page e c url im st")
    case (Raised err s')
    from scrape_page_requests [of e c url im st] Raised req
    have a: "page_requests s' = page_requests s @ visited @ [url]" by simp
    have b: "get_page e url = None \<longrightarrow> err = RequestError url"
      using Raised by (auto simp: scrape_page_None)
    from a got b have "page_requests s' = page_requests s @ visited @ [url]
               \<and> (\<forall>u \<in> set visited. get_page e u \<noteq> None)
               \<and> (get_page e url = None \<longrightarrow> err = RequestError url)"
      by simp
    then have "\<exists>visited url. page_requests s' = page_requests s @ visited @ [url]
               \<and> (\<forall>u \<in> set visited. get_page e u \<noteq> None)
               \<and> (get_page e url = None \<longrightarrow> err = RequestError url)"
      by (intro exI)
    with Raised show ?thesis by simp
  next
    case (Returned images' s')
    from scrape_page_Returned [OF Returned] have "get_page e url \<noteq> None" by auto
    with got have "\<forall>u \<in> set (visited @ [url]). get_page e u \<noteq> None" by simp
    moreover from scrape_page_requests [of e c url im st] Returned req
    have "page_requests s' = page_requests s @ (visited @ [url])" by simp
    ultimately have "page_requests s' = page_requests s @ (visited @ [url])
               \<and> (\<forall>u \<in> set (visited @ [url]). get_page e u \<noteq> None)"
      by simp
    then have "\<exists>visited. page_requests s' = page_requests s @ visited
               \<and> (\<forall>u \<in> set visited. get_page e u \<noteq> None)"
      by (intro exI)
    with Returned show ?thesis by simp
  qed
qed

subsection \<open>A page that links to itself is requested twice\<close>

text \<open>
  C1 (no page is requested a second time). The constructor is called with the defaults
  on the seed \<open>http://a.b/\<close>, whose page links to itself. One call \<open>scrape(2)\<close> has a
  single possible result, and in it the seed has been requested twice: when the first
  pass filters the links, the seed is not yet in \<open>explored\<close>, so the link puts it back
  into \<open>unexplored\<close>, and the second pass pops and requests it again.
\<close>

theorem self_link_requested_twice:
  "MegaScraper loop_env ''http://a.b/'' [] [] 0 0 ''scraped'' ''flat'' ''keep'' 100 1
     = Inr (plain_config, fresh ''http://a.b/'')
   \<and> scrape loop_env plain_config 2 (fresh ''http://a.b/'')
     = {Returned {''http://a.b/i.png''} loop_twice}
   \<and> page_requests loop_twice = [''http://a.b/'', ''http://a.b/'']"
  by code_simp

text \<open>
  C2 (\<open>explored\<close> and \<open>unexplored\<close> are disjoint). On the same site, after \<open>scrape(1)\<close>
  the seed is in \<open>explored\<close> and in \<open>unexplored\<close>.
\<close>

theorem self_link_explored_and_unexplored:
  "scrape loop_env plain_config 1 (fresh ''http://a.b/'')
     = {Returned {''http://a.b/i.png''} loop_once}
   \<and> explored loop_once \<inter> unexplored loop_once = {''http://a.b/''}"
  by code_simp

subsection \<open>A call of scrape, seen from outside\<close>

lemma scrape_Returned:
  assumes "Returned new_images s' \<in> scrape e c max_pages s"
  shows "\<exists>visited images s1. loop_returned e c s {} visited images s1
           \<and> new_images = images - images_urls s
           \<and> s' = s1\<lparr>images_urls := images_urls s \<union> images\<rparr>"
proof -
  from assms have "max_pages \<ge> 1"
    by (auto simp: scrape_def split: if_splits)
  with assms obtain r0 where r0: "r0 \<in> scrape_loop e c (nat max_pages) {} s"
    and fin: "scrape_finish r0 = Returned new_images s'"
    by (auto simp: scrape_def)
  from fin obtain images s1 where r0_eq: "r0 = Returned images s1"
    by (cases r0) auto
  from scrape_loop_trace [OF r0] r0_eq obtain visited where
    v: "loop_returned e c s {} visited images s1" by auto
  then have "images_urls s1 = images_urls s" by (simp add: loop_returned_def)
  with fin r0_eq have "new_images = images - images_urls s"
    "s' = s1\<lparr>images_urls := images_urls s \<union> images\<rparr>" by auto
  with v show ?thesis by blast
qed

lemma scrape_Raised:
  assumes "Raised (RequestError url) s' \<in> scrape e c max_pages s"
  shows "\<exists>visited. loop_raised e c s visited url s'"
proof -
  from assms have "max_pages \<ge> 1"
    by (auto simp: scrape_def split: if_splits)
  with assms obtain r0 where r0: "r0 \<in> scrape_loop e c (nat max_pages) {} s"
    and fin: "scrape_finish r0 = Raised (RequestError url) s'"
    by (auto simp: scrape_def)
  from fin have r0_eq: "r0 = Raised (RequestError url) s'"
    by (cases r0) auto
  from scrape_loop_trace [OF r0] r0_eq show ?thesis by auto
qed

text \<open>A call of \<open>scrape\<close> that requests a page and does not get it raises that error.\<close>

lemma failing_request_raises:
  assumes r: "r \<in> scrape e c max_pages s"
    and url: "url \<in> set (pages_since s (state_of r))"
    and none: "get_page e url = None"
  shows "\<exists>s'. r = Raised (RequestError url) s'"
proof -
  have "max_pages \<ge> 1"
  proof (rule ccontr)
    assume "\<not> max_pages \<ge> 1"
    with r have "state_of r = s" by (simp add: scrape_def)
    with url show False by (simp add: pages_since_def)
  qed
  with r obtain r0 where r0: "r0 \<in> scrape_loop e c (nat max_pages) {} s"
    and fin: "r = scrape_finish r0"
    by (auto simp: scrape_def)
  show ?thesis
  proof (cases r0)
    case (Returned images s1)
    from scrape_loop_requests [OF r0] Returned obtain visited where
      req: "page_requests s1 = page_requests s @ visited"
      and got: "\<forall>u \<in> set visited. get_page e u \<noteq> None" by auto
    from fin Returned req have "pages_since s (state_of r) = visited"
      by (simp add: pages_since_def)
    with url got none show ?thesis by auto
  next
    case (Raised err s1)
    from scrape_loop_requests [OF r0] Raised obtain visited url' where
      req: "page_requests s1 = page_requests s @ visited @ [url']"
      and got: "\<forall>u \<in> set visited. get_page e u \<noteq> None"
      and err: "get_page e url' = None \<longrightarrow> err = RequestError url'" by auto
    from fin Raised req have "pages_since s (state_of r) = visited @ [url']"
      by (simp add: pages_since_def)
    with url got none have "url = url'" by auto
    with err none have "err = RequestError url" by simp
    with fin Raised show ?thesis by simp
  qed
qed

subsection \<open>A request that fails during scrape\<close>

text \<open>
  C3, as the spec states it, fails. On the site whose second page cannot be fetched,
  \<open>scrape(2)\<close> processes the home page, which shows \<open>i.png\<close> and links to \<open>/p\<close>, and
  then raises on \<open>/p\<close>. Afterwards \<open>i.png\<close> is not in \<open>images_urls\<close>, since the images of a
  call are held in a local variable until the loop is over, and \<open>/p\<close> is in neither
  \<open>explored\<close> nor \<open>unexplored\<close>, since it was popped before the request. A second call
  finds nothing left to do: the page and the image are lost.
\<close>

theorem scrape_failure_loses_images_counterexample:
  "scrape broken_env plain_config 2 (fresh ''http://a.b/'')
     = {Raised (RequestError ''http://a.b/p'') broken_failed}
   \<and> ''http://a.b/'' \<in> explored broken_failed
   \<and> images_of_page broken_env plain_config ''http://a.b/'' = {''http://a.b/i.png''}
   \<and> ''http://a.b/i.png'' \<notin> images_urls broken_failed
   \<and> extract_unexplored_pages broken_env plain_config (fresh ''http://a.b/'')
        \<lparr>a_hrefs = [Some ''/p''], img_srcs = [Some ''/i.png'']\<rparr>
       = Inr {''http://a.b/p''}
   \<and> ''http://a.b/p'' \<notin> explored broken_failed \<union> unexplored broken_failed
   \<and> scrape broken_env plain_config 2 broken_failed = {Returned {} broken_failed}"
  by code_simp

text \<open>
  C3, amended. When a request fails during a call of \<open>scrape\<close>, the call raises that
  error. The pages requested in the call are the pages got before, followed by the
  failing one. The pages got before are in \<open>explored\<close>, and each link kept from them is
  in \<open>explored\<close> or \<open>unexplored\<close> or is the failing URL. The failing URL has left
  \<open>unexplored\<close>, and \<open>images_urls\<close> is what it was before the call.
\<close>

theorem scrape_failure_keeps_frontier_only:
  assumes "Raised (RequestError url) s' \<in> scrape e c max_pages s"
  shows "get_page e url = None
    \<and> page_requests s' = page_requests s @ pages_since s s'
    \<and> pages_since s s' \<noteq> [] \<and> last (pages_since s s') = url
    \<and> explored s' = explored s \<union> set (butlast (pages_since s s'))
    \<and> (\<forall>u \<in> set (butlast (pages_since s s')). \<exists>soup. get_page e u = Some soup
          \<and> page_links e c soup \<subseteq> explored s' \<union> unexplored s' \<union> {url})
    \<and> url \<notin> unexplored s'
    \<and> images_urls s' = images_urls s"
proof -
  from scrape_Raised [OF assms] obtain visited where
    v: "loop_raised e c s visited url s'" by blast
  then have req: "page_requests s' = page_requests s @ visited @ [url]"
    by (simp add: loop_raised_def)
  then have since: "pages_since s s' = visited @ [url]" by (simp add: pages_since_def)
  then have bl: "butlast (pages_since s s') = visited" "last (pages_since s s') = url"
    "pages_since s s' \<noteq> []" by simp_all
  from req since have req': "page_requests s' = page_requests s @ pages_since s s'" by simp
  from v have links: "\<forall>u \<in> set visited. \<exists>soup. get_page e u = Some soup
          \<and> page_links e c soup \<subseteq> explored s' \<union> unexplored s' \<union> {url}"
    unfolding loop_raised_def by blast
  from v have rest: "get_page e url = None" "explored s' = explored s \<union> set visited"
    "url \<notin> unexplored s'" "images_urls s' = images_urls s"
    unfolding loop_raised_def by simp_all
  show ?thesis
    unfolding bl using req' bl(3) links rest by blast
qed

theorem scrape_failure_keeps_frontier_only_witness:
  "Raised (RequestError ''http://a.b/p'') broken_failed
     \<in> scrape broken_env plain_config 2 (fresh ''http://a.b/'')
   \<and> get_page broken_env ''http://a.b/p'' = None
   \<and> pages_since (fresh ''http://a.b/'') broken_failed = [''http://a.b/'', ''http://a.b/p'']
   \<and> explored broken_failed = explored (fresh ''http://a.b/'') \<union> {''http://a.b/''}
   \<and> ''http://a.b/p'' \<notin> unexplored broken_failed
   \<and> images_urls broken_failed = images_urls (fresh ''http://a.b/'')"
proof -
  have h: "Raised (RequestError ''http://a.b/p'') broken_failed
     \<in> scrape broken_env plain_config 2 (fresh ''http://a.b/'')"
    by code_simp
  have a: "pages_since (fresh ''http://a.b/'') broken_failed = [''http://a.b/'', ''http://a.b/p'']"
    by code_simp
  from scrape_failure_keeps_frontier_only [OF h] h a show ?thesis by simp
qed

subsection \<open>What scrape returns\<close>

text \<open>
  C5. When a call of \<open>scrape\<close> returns, all pages requested in the call were got. With
  the images of those pages whose URL matches the page regex as the images of the
  call, the call returns the images of the call minus the \<open>images_urls\<close> of before, and
  the \<open>images_urls\<close> of afterwards are those of before together with the images of
  the call.
\<close>

theorem scrape_returns_new_images:
  assumes "Returned new_images s' \<in> scrape e c max_pages s"
  shows "page_requests s' = page_requests s @ pages_since s s'
    \<and> (\<forall>url \<in> set (pages_since s s'). get_page e url \<noteq> None)
    \<and> new_images = images_of_pages e c (set (pages_since s s')) - images_urls s
    \<and> images_urls s' = images_urls s \<union> images_of_pages e c (set (pages_since s s'))"
proof -
  from scrape_Returned [OF assms] obtain visited images s1 where
    v: "loop_returned e c s {} visited images s1"
    and new: "new_images = images - images_urls s"
    and s': "s' = s1\<lparr>images_urls := images_urls s \<union> images\<rparr>" by blast
  from v s' have req: "page_requests s' = page_requests s @ visited"
    by (simp add: loop_returned_def)
  then have since: "pages_since s s' = visited" by (simp add: pages_since_def)
  from v have images: "images = images_of_pages e c (set visited)"
    by (simp add: loop_returned_def)
  from v have got: "\<forall>url \<in> set visited. get_page e url \<noteq> None"
    unfolding loop_returned_def by auto
  from req since images got new s' show ?thesis by simp
qed

theorem scrape_returns_new_images_witness:
  "Returned {''http://a.b/k.png''} small_crawled \<in> scrape small_env grouped_config 1 small_first
   \<and> pages_since small_first small_crawled = [''http://a.b/p'']
   \<and> images_of_pages small_env grouped_config {''http://a.b/p''}
       = {''http://a.b/k.png'', ''http://a.b/i.png''}
   \<and> images_urls small_first = {''http://a.b/i.png''}
   \<and> {''http://a.b/k.png''}
       = images_of_pages small_env grouped_config (set (pages_since small_first small_crawled))
         - images_urls small_first
   \<and> images_urls small_crawled
       = images_urls small_first
         \<union> images_of_pages small_env grouped_config (set (pages_since small_first small_crawled))"
proof -
  have h: "Returned {''http://a.b/k.png''} small_crawled
      \<in> scrape small_env grouped_config 1 small_first"
    by code_simp
  have a: "pages_since small_first small_crawled = [''http://a.b/p'']"
    by code_simp
  have b: "images_of_pages small_env grouped_config {''http://a.b/p''}
       = {''http://a.b/k.png'', ''http://a.b/i.png''}"
    by code_simp
  have c: "images_urls small_first = {''http://a.b/i.png''}"
    by code_simp
  from scrape_returns_new_images [OF h] h a b c show ?thesis by blast
qed

subsection \<open>Sources that end in .gif\<close>

lemma MegaScraper_Inr:
  assumes "MegaScraper e sd rp ri mw mh folderpath structure naming per_folder initial_num = Inr (c, s0)"
  shows "s0 = fresh sd" and "seed c = sd" and "urlparse e sd = Some (parsed_seed c)"
    and "output_structure c = structure" and "output_naming c = naming"
    and "images_per_folder c = per_folder" and "folder_initial_num c = initial_num"
    and "output_folderpath c = folderpath"
    and "structure = ''flat'' \<or> structure = ''grouped''"
    and "naming = ''keep'' \<or> naming = ''numerical''"
    and "per_folder > 0" and "initial_num > 0"
  using assms by (auto simp: MegaScraper_def fresh_def split: if_splits option.splits)

lemma image_url_of_gif:
  "endswith src ''.gif'' \<Longrightarrow> image_url_of e c (Some src) urls = Inr urls"
  by (simp add: image_url_of_def)

lemma endswith_with_root:
  "endswith x suf \<Longrightarrow> endswith (with_root c x) suf"
  by (auto simp: with_root_def endswith_def suffix_def)

lemma images_of_page_no_gif:
  "u \<in> images_of_page e c url \<Longrightarrow> \<not> endswith u ''.gif''"
  by (auto simp: images_of_page_def dest: extract_images_urls_no_gif
        split: option.splits if_splits sum.splits)

lemma scrape_images_urls:
  assumes "r \<in> scrape e c max_pages s"
  shows "\<exists>urls. images_urls (state_of r) = images_urls s \<union> images_of_pages e c urls"
proof (cases r)
  case (Raised err s')
  show ?thesis
  proof (cases "max_pages \<ge> 1")
    case False
    with assms have "state_of r = s" by (simp add: scrape_def)
    then have "images_urls (state_of r) = images_urls s \<union> images_of_pages e c {}"
      by (simp add: images_of_pages_def)
    then show ?thesis ..
  next
    case True
    with assms Raised obtain r0 where r0: "r0 \<in> scrape_loop e c (nat max_pages) {} s"
      and fin: "scrape_finish r0 = Raised err s'"
      by (auto simp: scrape_def)
    from fin have "r0 = Raised err s'" by (cases r0) auto
    with scrape_loop_trace [OF r0] have "images_urls s' = images_urls s"
      by simp
    with Raised have "images_urls (state_of r) = images_urls s \<union> images_of_pages e c {}"
      by (simp add: images_of_pages_def)
    then show ?thesis ..
  qed
next
  case (Returned new_images s')
  with assms have "Returned new_images s' \<in> scrape e c max_pages s" by simp
  from scrape_Returned [OF this] obtain visited images s1 where
    v: "loop_returned e c s {} visited images s1"
    and s': "s' = s1\<lparr>images_urls := images_urls s \<union> images\<rparr>" by blast
  from v have "images = images_of_pages e c (set visited)" by (simp add: loop_returned_def)
  with s' Returned have "images_urls (state_of r) = images_urls s \<union> images_of_pages e c (set visited)"
    by simp
  then show ?thesis ..
qed

lemma download_images_urls:
  assumes "r \<in> download e c how_many s"
  shows "images_urls (state_of r) = images_urls s"
  by (rule download_state_invariant [OF assms, where I = "\<lambda>s'. images_urls s' = images_urls s"])
     (simp_all add: ensure_dir_frame(1) download_image_frame)

lemma reachable_no_gif:
  assumes "reachable e c s0 s" and "images_urls s0 = {}" and "u \<in> images_urls s"
  shows "\<not> endswith u ''.gif''"
  using assms
proof (induction arbitrary: u rule: reachable.induct)
  case start
  then show ?case by simp
next
  case (after_scrape s r max_pages)
  from scrape_images_urls [OF after_scrape.hyps(2)] obtain urls where
    "images_urls (state_of r) = images_urls s \<union> images_of_pages e c urls" ..
  with after_scrape.prems consider "u \<in> images_urls s" | url where "u \<in> images_of_page e c url"
    by (auto simp: images_of_pages_def)
  then show ?case
  proof cases
    case 1
    then show ?thesis using after_scrape.IH after_scrape.prems by blast
  next
    case 2
    then show ?thesis by (rule images_of_page_no_gif)
  qed
next
  case (after_download s r how_many)
  then show ?case by (simp add: download_images_urls)
qed

text \<open>
  C9. An image source that ends in \<open>.gif\<close> is skipped by the extraction loop, whatever
  the image regex says. In no state of a scraper built by the constructor is the
  source, or the source with the root put before it, in \<open>images_urls\<close>.
\<close>

theorem gif_never_discovered:
  assumes "MegaScraper e sd rp ri mw mh folderpath structure naming per_folder initial_num = Inr (c, s0)"
    and "reachable e c s0 s"
    and "endswith src ''.gif''"
  shows "image_url_of e c (Some src) urls = Inr urls
    \<and> src \<notin> images_urls s
    \<and> with_root c src \<notin> images_urls s"
proof -
  have "images_urls s0 = {}"
    by (simp add: MegaScraper_Inr(1) [OF assms(1)] fresh_def)
  with assms(2) have "\<And>u. u \<in> images_urls s \<Longrightarrow> \<not> endswith u ''.gif''"
    by (rule reachable_no_gif)
  with assms(3) endswith_with_root [OF assms(3)] image_url_of_gif [OF assms(3)]
  show ?thesis by blast
qed

theorem gif_never_discovered_witness:
  "MegaScraper small_env ''http://a.b/'' [] [] 5 5 ''out'' ''grouped'' ''numerical'' 100 1
     = Inr (grouped_config, fresh ''http://a.b/'')
   \<and> reachable small_env grouped_config (fresh ''http://a.b/'') small_crawled
   \<and> endswith ''/j.gif'' ''.gif''
   \<and> Some ''/j.gif'' \<in> set (img_srcs \<lparr>a_hrefs = [Some ''/p'', Some ''http://x.y/q'', None],
                 img_srcs = [Some ''/i.png'', Some ''/j.gif'']\<rparr>)
   \<and> re_search small_env (regex_images grouped_config) (with_root grouped_config ''/j.gif'')
       = Some True
   \<and> with_root grouped_config ''/j.gif'' = ''http://a.b/j.gif''
   \<and> ''/j.gif'' \<notin> images_urls small_crawled
   \<and> ''http://a.b/j.gif'' \<notin> images_urls small_crawled"
proof -
  have init: "MegaScraper small_env ''http://a.b/'' [] [] 5 5 ''out'' ''grouped'' ''numerical'' 100 1
     = Inr (grouped_config, fresh ''http://a.b/'')"
    by code_simp
  have "Returned {''http://a.b/i.png'', ''http://a.b/k.png''} small_crawled
      \<in> scrape small_env grouped_config 5 (fresh ''http://a.b/'')"
    by code_simp
  from reachable.after_scrape [OF reachable.start this]
  have reach: "reachable small_env grouped_config (fresh ''http://a.b/'') small_crawled"
    by simp
  have gif: "endswith ''/j.gif'' ''.gif''" by code_simp
  have more: "Some ''/j.gif'' \<in> set (img_srcs \<lparr>a_hrefs = [Some ''/p'', Some ''http://x.y/q'', None],
                 img_srcs = [Some ''/i.png'', Some ''/j.gif'']\<rparr>)"
    "re_search small_env (regex_images grouped_config) (with_root grouped_config ''/j.gif'')
       = Some True"
    "with_root grouped_config ''/j.gif'' = ''http://a.b/j.gif''"
    by code_simp+
  from gif_never_discovered [OF init reach gif] init reach gif more
  show ?thesis by simp
qed

subsection \<open>Which links are kept\<close>

lemma scrape_page_unexplored:
  "unexplored (state_of (scrape_page e c url images s))
     \<subseteq> unexplored s
       \<union> {h. \<exists>parsed. urlparse e h = Some parsed \<and> netloc parsed = netloc (parsed_seed c)}"
  using scrape_page_unexplored_links [of e c url images s]
  unfolding page_links_def by blast

lemma reachable_unexplored_netloc:
  assumes "reachable e c s0 s"
    and "\<forall>u \<in> unexplored s0. \<exists>parsed. urlparse e u = Some parsed
           \<and> netloc parsed = netloc (parsed_seed c)"
  shows "\<forall>u \<in> unexplored s. \<exists>parsed. urlparse e u = Some parsed
           \<and> netloc parsed = netloc (parsed_seed c)"
proof (rule reachable_invariant [OF assms(1),
    where I = "\<lambda>s. \<forall>u \<in> unexplored s. \<exists>parsed. urlparse e u = Some parsed
           \<and> netloc parsed = netloc (parsed_seed c)"])
  fix url images and s :: state
  assume "\<forall>u \<in> unexplored s. \<exists>parsed. urlparse e u = Some parsed
           \<and> netloc parsed = netloc (parsed_seed c)"
  with scrape_page_unexplored [of e c url images s]
  show "\<forall>u \<in> unexplored (state_of (scrape_page e c url images s)).
          \<exists>parsed. urlparse e u = Some parsed \<and> netloc parsed = netloc (parsed_seed c)"
    by blast
qed (simp_all add: assms(2) ensure_dir_frame(3) download_image_frame)

text \<open>
  C4, as the spec states it, fails. The seed is \<open>https://a.b/\<close> and its page links to
  \<open>http://a.b/x\<close>: the same network location under another scheme. The link is kept,
  and after \<open>scrape(1)\<close> it is in \<open>unexplored\<close>, although its scheme and network location
  do not give the root of the seed: the code compares the network locations only.
\<close>

theorem other_scheme_link_kept_counterexample:
  "MegaScraper mixed_env ''https://a.b/'' [] [] 0 0 ''scraped'' ''flat'' ''keep'' 100 1
     = Inr (secure_config, fresh ''https://a.b/'')
   \<and> mixed_page ''https://a.b/''
       = Some \<lparr>a_hrefs = [Some ''http://a.b/x'', Some ''https://c.d/y''], img_srcs = []\<rparr>
   \<and> extract_unexplored_pages mixed_env secure_config (fresh ''https://a.b/'')
        \<lparr>a_hrefs = [Some ''http://a.b/x'', Some ''https://c.d/y''], img_srcs = []\<rparr>
       = Inr {''http://a.b/x''}
   \<and> scrape mixed_env secure_config 1 (fresh ''https://a.b/'') = {Returned {} mixed_once}
   \<and> ''http://a.b/x'' \<in> unexplored mixed_once
   \<and> urlparse mixed_env ''http://a.b/x'' = Some \<lparr>scheme = ''http'', netloc = ''a.b''\<rparr>
   \<and> parsed_seed secure_config = \<lparr>scheme = ''https'', netloc = ''a.b''\<rparr>
   \<and> root secure_config = ''https://a.b''
   \<and> ''http'' @ ''://'' @ ''a.b'' \<noteq> root secure_config"
  by code_simp

text \<open>
  C4, amended. A URL is kept by \<open>_extract_unexplored_pages\<close> only if it is the \<open>href\<close> of
  an \<open>a\<close> element, non-empty and with the root put before a leading slash, its network
  location is that of the seed, and it is not in \<open>explored\<close>; the scheme is not
  compared. In every state of a scraper built by the constructor, all URLs in
  \<open>unexplored\<close> have the network location of the seed.
\<close>

theorem links_kept_by_netloc:
  assumes "MegaScraper e sd rp ri mw mh folderpath structure naming per_folder initial_num = Inr (c, s0)"
    and "reachable e c s0 s"
  shows "(\<forall>links. extract_unexplored_pages e c s soup = Inr links \<longrightarrow> h \<in> links \<longrightarrow>
            (\<exists>href0. Some href0 \<in> set (a_hrefs soup) \<and> href0 \<noteq> [] \<and> h = with_root c href0)
            \<and> (\<exists>parsed. urlparse e h = Some parsed \<and> netloc parsed = netloc (parsed_seed c))
            \<and> h \<notin> explored s)
    \<and> (\<forall>u \<in> unexplored s. \<exists>parsed. urlparse e u = Some parsed
           \<and> netloc parsed = netloc (parsed_seed c))"
proof
  show "\<forall>links. extract_unexplored_pages e c s soup = Inr links \<longrightarrow> h \<in> links \<longrightarrow>
            (\<exists>href0. Some href0 \<in> set (a_hrefs soup) \<and> href0 \<noteq> [] \<and> h = with_root c href0)
            \<and> (\<exists>parsed. urlparse e h = Some parsed \<and> netloc parsed = netloc (parsed_seed c))
            \<and> h \<notin> explored s"
  proof (intro allI impI)
    fix links
    assume "extract_unexplored_pages e c s soup = Inr links" and "h \<in> links"
    with extract_unexplored_pages_Inr [of e c s soup links]
    have "h \<in> page_links e c soup - explored s" by simp
    then show "(\<exists>href0. Some href0 \<in> set (a_hrefs soup) \<and> href0 \<noteq> [] \<and> h = with_root c href0)
            \<and> (\<exists>parsed. urlparse e h = Some parsed \<and> netloc parsed = netloc (parsed_seed c))
            \<and> h \<notin> explored s"
      unfolding page_links_def by blast
  qed
next
  have "\<forall>u \<in> unexplored s0. \<exists>parsed. urlparse e u = Some parsed
           \<and> netloc parsed = netloc (parsed_seed c)"
    by (simp add: MegaScraper_Inr(1,3) [OF assms(1)] fresh_def)
  with assms(2) show "\<forall>u \<in> unexplored s. \<exists>parsed. urlparse e u = Some parsed
           \<and> netloc parsed = netloc (parsed_seed c)"
    by (rule reachable_unexplored_netloc)
qed

theorem links_kept_by_netloc_witness:
  "MegaScraper mixed_env ''https://a.b/'' [] [] 0 0 ''scraped'' ''flat'' ''keep'' 100 1
     = Inr (secure_config, fresh ''https://a.b/'')
   \<and> reachable mixed_env secure_config (fresh ''https://a.b/'') (fresh ''https://a.b/'')
   \<and> extract_unexplored_pages mixed_env secure_config (fresh ''https://a.b/'')
        \<lparr>a_hrefs = [Some ''http://a.b/x'', Some ''https://c.d/y''], img_srcs = []\<rparr>
       = Inr {''http://a.b/x''}
   \<and> ''http://a.b/x'' \<in> {''http://a.b/x''}
   \<and> (\<exists>parsed. urlparse mixed_env ''http://a.b/x'' = Some parsed
         \<and> netloc parsed = netloc (parsed_seed secure_config))
   \<and> ''http://a.b/x'' \<notin> explored (fresh ''https://a.b/'')
   \<and> unexplored (fresh ''https://a.b/'') = {''https://a.b/''}
   \<and> (\<exists>parsed. urlparse mixed_env ''https://a.b/'' = Some parsed
         \<and> netloc parsed = netloc (parsed_seed secure_config))"
proof -
  have init: "MegaScraper mixed_env ''https://a.b/'' [] [] 0 0 ''scraped'' ''flat'' ''keep'' 100 1
     = Inr (secure_config, fresh ''https://a.b/'')"
    by code_simp
  have reach: "reachable mixed_env secure_config (fresh ''https://a.b/'') (fresh ''https://a.b/'')"
    by (rule reachable.start)
  have kept: "extract_unexplored_pages mixed_env secure_config (fresh ''https://a.b/'')
        \<lparr>a_hrefs = [Some ''http://a.b/x'', Some ''https://c.d/y''], img_srcs = []\<rparr>
       = Inr {''http://a.b/x''}"
    by code_simp
  have u: "unexplored (fresh ''https://a.b/'') = {''https://a.b/''}"
    by code_simp
  from links_kept_by_netloc [OF init reach, of
      "\<lparr>a_hrefs = [Some ''http://a.b/x'', Some ''https://c.d/y''], img_srcs = []\<rparr>"
      "''http://a.b/x''"] kept u
  have "(\<exists>parsed. urlparse mixed_env ''http://a.b/x'' = Some parsed
         \<and> netloc parsed = netloc (parsed_seed secure_config))
   \<and> ''http://a.b/x'' \<notin> explored (fresh ''https://a.b/'')
   \<and> (\<exists>parsed. urlparse mixed_env ''https://a.b/'' = Some parsed
         \<and> netloc parsed = netloc (parsed_seed secure_config))"
    by simp
  with init reach kept u show ?thesis by simp
qed

subsection \<open>A download of nothing\<close>

text \<open>
  C10, as stated, fails. The constructor takes the empty path for the output folder;
  \<open>os.makedirs\<close> refuses it, so \<open>download(0)\<close> raises and makes no directory.
\<close>

theorem download_nothing_makedirs_counterexample:
  "MegaScraper loop_env ''http://a.b/'' [] [] 0 0 [] ''flat'' ''keep'' 100 1
     = Inr (rootless_config, fresh ''http://a.b/'')
   \<and> \<not> path_exists loop_env (fresh ''http://a.b/'') (output_folderpath rootless_config)
   \<and> download loop_env rootless_config 0 (fresh ''http://a.b/'')
       = {Raised (MakedirsError []) (fresh ''http://a.b/'')}
   \<and> made_dirs (fresh ''http://a.b/'') = []"
  by code_simp

text \<open>
  C10, amended. For \<open>how_many \<le> 0\<close> the call \<open>download(how_many)\<close> has one result. When
  the output folder exists, it returns and the state is as before; when the folder does
  not exist and \<open>os.makedirs\<close> makes it, it returns and that is its only effect; when
  \<open>os.makedirs\<close> raises, the call raises that error and has done nothing else. In no
  case is an image requested or a file saved, and \<open>downloaded\<close>, the index, \<open>explored\<close>,
  \<open>unexplored\<close> and \<open>images_urls\<close> are as before.
\<close>

theorem download_nothing:
  assumes "how_many \<le> 0"
  shows "download e c how_many s =
           (if path_exists e s (output_folderpath c) then {Returned () s}
            else if makedirs_ok e (output_folderpath c)
            then {Returned () (s\<lparr>made_dirs := made_dirs s @ [output_folderpath c]\<rparr>)}
            else {Raised (MakedirsError (output_folderpath c)) s})
    \<and> (\<forall>r \<in> download e c how_many s.
          image_requests (state_of r) = image_requests s
          \<and> saved (state_of r) = saved s
          \<and> downloaded (state_of r) = downloaded s
          \<and> downloaded_idx (state_of r) = downloaded_idx s
          \<and> explored (state_of r) = explored s
          \<and> unexplored (state_of r) = unexplored s
          \<and> images_urls (state_of r) = images_urls s
          \<and> page_requests (state_of r) = page_requests s)"
  using assms by (simp add: download_def ensure_dir_def)

theorem download_nothing_witness:
  "(- 3 :: int) \<le> 0
   \<and> \<not> path_exists loop_env (fresh ''http://a.b/'') (output_folderpath plain_config)
   \<and> makedirs_ok loop_env (output_folderpath plain_config)
   \<and> download loop_env plain_config (- 3) (fresh ''http://a.b/'')
       = {Returned () ((fresh ''http://a.b/'')\<lparr>made_dirs := [''scraped'']\<rparr>)}"
proof -
  have h: "(- 3 :: int) \<le> 0" by simp
  have d: "\<not> path_exists loop_env (fresh ''http://a.b/'') (output_folderpath plain_config)"
    "makedirs_ok loop_env (output_folderpath plain_config)"
    "made_dirs (fresh ''http://a.b/'') @ [output_folderpath plain_config] = [''scraped'']"
    by code_simp+
  from download_nothing [OF h, of loop_env plain_config "fresh ''http://a.b/''"] d h
  show ?thesis by simp
qed

subsection \<open>One attempt for every image\<close>

lemma download_image_None:
  assumes "open_image e u = None"
  shows "image_requests (state_of (download_image e c u s)) = image_requests s @ [u]"
    and "downloaded (state_of (download_image e c u s)) = downloaded s"
    and "saved (state_of (download_image e c u s)) = saved s"
    and "downloaded_idx (state_of (download_image e c u s)) = downloaded_idx s"
  using assms by (simp_all add: download_image_def)

lemma download_image_rejected:
  assumes "open_image e u = Some (w, h)" and "\<not> (w \<ge> min_width c \<and> h \<ge> min_height c)"
  shows "download_image e c u s =
           Returned () (s\<lparr>image_requests := image_requests s @ [u],
                          downloaded := insert u (downloaded s)\<rparr>)"
  using assms by (auto simp: download_image_def)

lemma download_image_requested:
  "image_requests (state_of (download_image e c u s)) = image_requests s @ [u]"
  "downloaded (state_of (download_image e c u s)) =
     (if open_image e u = None then downloaded s else insert u (downloaded s))"
  by (simp_all add: download_image_def Let_def save_image_def ensure_dir_def
        split: option.splits prod.splits)

lemma download_image_saved:
  "saved (state_of (download_image e c u s)) = saved s
   \<or> (\<exists>path w h. saved (state_of (download_image e c u s)) = saved s @ [(path, u)]
         \<and> open_image e u = Some (w, h) \<and> w \<ge> min_width c \<and> h \<ge> min_height c)"
  by (simp add: download_image_def Let_def save_image_def ensure_dir_def
        split: option.splits prod.splits)

lemma download_image_accepted:
  assumes "open_image e u = Some (w, h)" and "w \<ge> min_width c" and "h \<ge> min_height c"
    and "output_structure c = ''flat'' \<or> output_structure c = ''grouped''"
    and "output_naming c = ''keep'' \<or> output_naming c = ''numerical''"
    and "images_per_folder c > 0"
  shows "case download_image e c u s of
           Returned v s' \<Rightarrow>
             (\<exists>path. saved s' = saved s @ [(path, u)] \<and> save_ok e u path)
             \<and> downloaded_idx s' = downloaded_idx s + 1
         | Raised err s' \<Rightarrow>
             saved s' = saved s \<and> downloaded_idx s' = downloaded_idx s
             \<and> (\<exists>p. err = MakedirsError p \<and> \<not> makedirs_ok e p
                    \<or> err = SaveError p \<and> \<not> save_ok e u p)"
  using assms
  by (auto simp: download_image_def Let_def save_image_def ensure_dir_def image_filename_def)

lemma download_image_grouped_numerical:
  assumes "output_structure c = ''grouped''" and "output_naming c = ''numerical''"
  shows "saved (state_of (download_image e c u s)) = saved s
           \<and> downloaded_idx (state_of (download_image e c u s)) = downloaded_idx s
         \<or> saved (state_of (download_image e c u s)) =
               saved s @ [(path_join (path_join (output_folderpath c) (image_foldername c s))
                             (str_int (downloaded_idx s) @ ''.jpg''), u)]
           \<and> downloaded_idx (state_of (download_image e c u s)) = downloaded_idx s + 1"
  using assms
  by (simp add: download_image_def Let_def save_image_def ensure_dir_def image_filename_def
        image_foldername_def split: option.splits prod.splits)

lemma int_truediv_nonneg:
  "0 \<le> a \<Longrightarrow> 0 < b \<Longrightarrow> int_truediv a b = a div b"
  by (cases "a = 0") (simp_all add: int_truediv_def)

lemma attempts_inv_download_image:
  assumes inv: "attempts_inv e c s" and cand: "u0 \<in> images_urls s - downloaded s"
  shows "attempts_inv e c (state_of (download_image e c u0 s))"
proof -
  let ?s' = "state_of (download_image e c u0 s)"
  note req = download_image_requested [of e c u0 s]
  from cand have new: "u0 \<notin> downloaded s" by simp
  have zero: "count_list (image_requests s) u0 = 0" if "open_image e u0 \<noteq> None"
  proof -
    from inv new that have "u0 \<notin> set (image_requests s)"
      unfolding attempts_inv_def by blast
    then show ?thesis by (simp add: count_list_0_iff)
  qed
  from download_image_saved [of e c u0 s]
  consider "saved ?s' = saved s"
    | path w h where "saved ?s' = saved s @ [(path, u0)]" "open_image e u0 = Some (w, h)"
        "w \<ge> min_width c" "h \<ge> min_height c"
    by blast
  then show ?thesis
  proof cases
    case 1
    from inv new zero show ?thesis
      unfolding attempts_inv_def req 1 by auto
  next
    case 2
    from inv new zero 2(2,3,4) show ?thesis
      unfolding attempts_inv_def req 2(1) by auto
  qed
qed

lemma reachable_attempts_inv:
  assumes init: "MegaScraper e sd rp ri mw mh folderpath structure naming per_folder initial_num = Inr (c, s0)"
    and reach: "reachable e c s0 s"
  shows "attempts_inv e c s"
proof (rule reachable_invariant [OF reach, where I = "attempts_inv e c"])
  show "attempts_inv e c s0"
    by (simp add: MegaScraper_Inr(1) [OF init] fresh_def attempts_inv_def)
next
  fix u and s :: state
  assume "attempts_inv e c s" "u \<in> images_urls s - downloaded s"
  then show "attempts_inv e c (state_of (download_image e c u s))"
    by (rule attempts_inv_download_image)
next
  fix p and s s' :: state
  assume inv: "attempts_inv e c s" and dir: "ensure_dir e p s = Inr s'"
  from inv show "attempts_inv e c s'"
    unfolding attempts_inv_def ensure_dir_frame(5,7,8) [OF dir] .
next
  fix url images and s :: state
  assume inv: "attempts_inv e c s"
  from inv show "attempts_inv e c (state_of (scrape_page e c url images s))"
    unfolding attempts_inv_def scrape_page_frame .
next
  fix X and s :: state
  assume inv: "attempts_inv e c s"
  have same: "downloaded (s\<lparr>images_urls := X\<rparr>) = downloaded s"
    "image_requests (s\<lparr>images_urls := X\<rparr>) = image_requests s"
    "saved (s\<lparr>images_urls := X\<rparr>) = saved s"
    by simp_all
  from inv show "attempts_inv e c (s\<lparr>images_urls := X\<rparr>)"
    unfolding attempts_inv_def same .
qed

text \<open>
  C6, as the spec states it, fails. The site shows one image, \<open>/pic\<close>, of 10 by 10
  pixels, and the scraper is built with the defaults, so the size is accepted and the
  file is to keep its name. \<open>image.save\<close> refuses a name without an extension:
  \<open>download(1)\<close> raises, no file is written, and the URL is in \<open>downloaded\<close>, so that a
  later \<open>download(5)\<close> does not take it up again.
\<close>

theorem accepted_image_not_saved_counterexample:
  "MegaScraper pic_env ''http://a.b/'' [] [] 0 0 ''scraped'' ''flat'' ''keep'' 100 1
     = Inr (plain_config, fresh ''http://a.b/'')
   \<and> scrape pic_env plain_config 1 (fresh ''http://a.b/'')
       = {Returned {''http://a.b/pic''} pic_crawled}
   \<and> open_image pic_env ''http://a.b/pic'' = Some (10, 10)
   \<and> min_width plain_config \<le> 10 \<and> min_height plain_config \<le> 10
   \<and> download pic_env plain_config 1 pic_crawled
       = {Raised (SaveError ''scraped/pic'') pic_failed}
   \<and> ''http://a.b/pic'' \<in> downloaded pic_failed
   \<and> saved pic_failed = []
   \<and> download pic_env plain_config 5 pic_failed = {Returned () pic_failed}
   \<and> image_requests pic_failed = [''http://a.b/pic'']"
  by code_simp

text \<open>
  C6, amended. Take a scraper built by the constructor, in any state that calls of
  \<open>scrape\<close> and \<open>download\<close> can lead to, and an image URL that opens with width \<open>w\<close> and
  height \<open>h\<close>. The URL is in \<open>downloaded\<close> exactly when it was requested; a file was saved
  from it only if it is in \<open>downloaded\<close> and \<open>w\<close> and \<open>h\<close> reach the minimum width and
  height; and it was requested at most once. When the loop of \<open>download\<close> takes it up,
  the URL is put into \<open>downloaded\<close> whether the size is accepted or not. If the size
  is not accepted, the pass returns, nothing is saved and the index stays. If the size is
  accepted, either the pass returns, one file is saved by an \<open>image.save\<close> that returned
  and the index goes up by one, or the pass raises what \<open>os.makedirs\<close> or \<open>image.save\<close>
  raised, no save has returned and the index stays.
\<close>

theorem image_attempted_once:
  assumes "MegaScraper e sd rp ri mw mh folderpath structure naming per_folder initial_num = Inr (c, s0)"
    and "reachable e c s0 s"
    and "open_image e u = Some (w, h)"
  shows "(u \<in> downloaded s \<longleftrightarrow> u \<in> set (image_requests s))
    \<and> (u \<in> snd ` set (saved s) \<longrightarrow> u \<in> downloaded s \<and> w \<ge> min_width c \<and> h \<ge> min_height c)
    \<and> count_list (image_requests s) u \<le> 1
    \<and> (u \<in> images_urls s - downloaded s \<longrightarrow>
         u \<in> downloaded (state_of (download_image e c u s))
         \<and> image_requests (state_of (download_image e c u s)) = image_requests s @ [u]
         \<and> (if w \<ge> min_width c \<and> h \<ge> min_height c
            then (case download_image e c u s of
                    Returned v s' \<Rightarrow>
                      (\<exists>path. saved s' = saved s @ [(path, u)] \<and> save_ok e u path)
                      \<and> downloaded_idx s' = downloaded_idx s + 1
                  | Raised err s' \<Rightarrow>
                      saved s' = saved s \<and> downloaded_idx s' = downloaded_idx s
                      \<and> (\<exists>p. err = MakedirsError p \<and> \<not> makedirs_ok e p
                             \<or> err = SaveError p \<and> \<not> save_ok e u p))
            else (\<exists>s'. download_image e c u s = Returned () s'
                        \<and> saved s' = saved s \<and> downloaded_idx s' = downloaded_idx s)))"
proof -
  from reachable_attempts_inv [OF assms(1,2)] assms(3)
  have a: "u \<in> downloaded s \<longleftrightarrow> u \<in> set (image_requests s)"
    and b: "u \<in> snd ` set (saved s) \<longrightarrow> u \<in> downloaded s \<and> w \<ge> min_width c \<and> h \<ge> min_height c"
    and c: "count_list (image_requests s) u \<le> 1"
    unfolding attempts_inv_def by auto
  note valid = MegaScraper_Inr(4,5,6,9,10,11) [OF assms(1)]
  from download_image_requested [of e c u s] assms(3)
  have d1: "u \<in> downloaded (state_of (download_image e c u s))"
    and d2: "image_requests (state_of (download_image e c u s)) = image_requests s @ [u]"
    by simp_all
  have d3: "if w \<ge> min_width c \<and> h \<ge> min_height c
            then (case download_image e c u s of
                    Returned v s' \<Rightarrow>
                      (\<exists>path. saved s' = saved s @ [(path, u)] \<and> save_ok e u path)
                      \<and> downloaded_idx s' = downloaded_idx s + 1
                  | Raised err s' \<Rightarrow>
                      saved s' = saved s \<and> downloaded_idx s' = downloaded_idx s
                      \<and> (\<exists>p. err = MakedirsError p \<and> \<not> makedirs_ok e p
                             \<or> err = SaveError p \<and> \<not> save_ok e u p))
            else (\<exists>s'. download_image e c u s = Returned () s'
                        \<and> saved s' = saved s \<and> downloaded_idx s' = downloaded_idx s)"
  proof (cases "w \<ge> min_width c \<and> h \<ge> min_height c")
    case False
    from download_image_rejected [OF assms(3) False, where s = s] False show ?thesis by simp
  next
    case True
    then have ok: "w \<ge> min_width c" "h \<ge> min_height c" by simp_all
    have "output_structure c = ''flat'' \<or> output_structure c = ''grouped''"
      "output_naming c = ''keep'' \<or> output_naming c = ''numerical''"
      "images_per_folder c > 0"
      using valid by simp_all
    from download_image_accepted [OF assms(3) ok this, where s = s] show ?thesis
      unfolding if_P [OF True] .
  qed
  from a b c d1 d2 d3 show ?thesis by blast
qed

theorem image_attempted_once_witness:
  "MegaScraper small_env ''http://a.b/'' [] [] 5 5 ''out'' ''grouped'' ''numerical'' 100 1
     = Inr (grouped_config, fresh ''http://a.b/'')
   \<and> reachable small_env grouped_config (fresh ''http://a.b/'') small_downloaded
   \<and> open_image small_env ''http://a.b/k.png'' = Some (1, 1)
   \<and> ''http://a.b/k.png'' \<in> downloaded small_downloaded
   \<and> ''http://a.b/k.png'' \<in> set (image_requests small_downloaded)
   \<and> \<not> (1 \<ge> min_width grouped_config \<and> 1 \<ge> min_height grouped_config)
   \<and> count_list (image_requests small_downloaded) ''http://a.b/k.png'' \<le> 1
   \<and> reachable small_env grouped_config (fresh ''http://a.b/'') small_crawled
   \<and> open_image small_env ''http://a.b/i.png'' = Some (10, 10)
   \<and> ''http://a.b/i.png'' \<in> images_urls small_crawled - downloaded small_crawled
   \<and> ''http://a.b/i.png''
       \<in> downloaded (state_of (download_image small_env grouped_config ''http://a.b/i.png''
                                 small_crawled))"
proof -
  have init: "MegaScraper small_env ''http://a.b/'' [] [] 5 5 ''out'' ''grouped'' ''numerical'' 100 1
     = Inr (grouped_config, fresh ''http://a.b/'')"
    by code_simp
  have "Returned {''http://a.b/i.png'', ''http://a.b/k.png''} small_crawled
      \<in> scrape small_env grouped_config 5 (fresh ''http://a.b/'')"
    by code_simp
  from reachable.after_scrape [OF reachable.start this]
  have crawled: "reachable small_env grouped_config (fresh ''http://a.b/'') small_crawled"
    by simp
  have "Returned () small_downloaded \<in> download small_env grouped_config 2 small_crawled"
    by code_simp
  from reachable.after_download [OF crawled this]
  have reach: "reachable small_env grouped_config (fresh ''http://a.b/'') small_downloaded"
    by simp
  have dec: "open_image small_env ''http://a.b/k.png'' = Some (1, 1)"
    by code_simp
  have more: "''http://a.b/k.png'' \<in> downloaded small_downloaded"
    "\<not> (1 \<ge> min_width grouped_config \<and> 1 \<ge> min_height grouped_config)"
    by code_simp+
  have dec': "open_image small_env ''http://a.b/i.png'' = Some (10, 10)"
    by code_simp
  have cand: "''http://a.b/i.png'' \<in> images_urls small_crawled - downloaded small_crawled"
    by code_simp
  from image_attempted_once [OF init crawled dec'] cand
  have taken: "''http://a.b/i.png''
       \<in> downloaded (state_of (download_image small_env grouped_config ''http://a.b/i.png''
                                 small_crawled))"
    by blast
  from image_attempted_once [OF init reach dec] init reach dec more crawled dec' cand taken
  show ?thesis by simp
qed

subsection \<open>Numbered files in grouped folders\<close>

lemma saved_inv_download_image:
  assumes inv: "saved_inv c s"
    and valid: "output_structure c = ''grouped''" "output_naming c = ''numerical''"
      "images_per_folder c > 0"
  shows "saved_inv c (state_of (download_image e c u s))"
proof -
  let ?s' = "state_of (download_image e c u s)"
  let ?k = "length (saved s)"
  from inv have idx: "downloaded_idx s = 1 + int ?k"
    and old: "\<And>n. 1 \<le> n \<Longrightarrow> n \<le> ?k \<Longrightarrow> fst (saved s ! (n - 1)) = grouped_path c n"
    unfolding saved_inv_def by simp_all
  have folder: "image_foldername c s =
      zfill 4 (str_int ((int (Suc ?k) - 1) div images_per_folder c + folder_initial_num c))"
    using valid(3) by (simp add: image_foldername_def idx int_truediv_nonneg)
  have path: "path_join (path_join (output_folderpath c) (image_foldername c s))
                (str_int (downloaded_idx s) @ ''.jpg'') = grouped_path c (Suc ?k)"
    unfolding grouped_path_def folder by (simp add: idx add.commute)
  from download_image_grouped_numerical [OF valid(1,2), of e u s]
  consider "saved ?s' = saved s" "downloaded_idx ?s' = downloaded_idx s"
    | "saved ?s' = saved s @ [(grouped_path c (Suc ?k), u)]"
      "downloaded_idx ?s' = downloaded_idx s + 1"
    unfolding path by blast
  then show ?thesis
  proof cases
    case 1
    from inv show ?thesis
      unfolding saved_inv_def 1 .
  next
    case 2
    note sv = 2(1)
    have idx': "downloaded_idx ?s' = 1 + int (length (saved ?s'))"
      by (simp add: sv 2(2) idx)
    have "fst (saved ?s' ! (n - 1)) = grouped_path c n"
      if "1 \<le> n" "n \<le> length (saved ?s')" for n
    proof (cases "n \<le> ?k")
      case True
      with that have "n - 1 < ?k" by simp
      with that True old [of n] show ?thesis by (simp add: sv nth_append)
    next
      case False
      with that have "n = Suc ?k" by (simp add: sv)
      then show ?thesis by (simp add: sv)
    qed
    with idx' show ?thesis unfolding saved_inv_def by blast
  qed
qed

lemma reachable_saved_inv:
  assumes init: "MegaScraper e sd rp ri mw mh folderpath ''grouped'' ''numerical'' per_folder initial_num = Inr (c, s0)"
    and reach: "reachable e c s0 s"
  shows "saved_inv c s"
proof (rule reachable_invariant [OF reach, where I = "saved_inv c"])
  show "saved_inv c s0"
    by (simp add: MegaScraper_Inr(1) [OF init] fresh_def saved_inv_def)
next
  fix u and s :: state
  assume "saved_inv c s"
  then show "saved_inv c (state_of (download_image e c u s))"
    using MegaScraper_Inr(4,5,6,11) [OF init]
    by (intro saved_inv_download_image) simp_all
next
  fix p and s s' :: state
  assume inv: "saved_inv c s" and dir: "ensure_dir e p s = Inr s'"
  from inv show "saved_inv c s'"
    unfolding saved_inv_def ensure_dir_frame(6,8) [OF dir] .
qed (simp_all add: saved_inv_def scrape_page_frame)

lemma digits_small: "n < 10 \<Longrightarrow> digits n = [digit_chr n]"
  by (simp add: digits.simps)

text \<open>
  C7. Take a scraper built with numerical naming and grouped structure, in any state
  that calls of \<open>scrape\<close> and \<open>download\<close> can lead to. The \<open>n\<close>-th file saved, counting the
  saved files only, is named \<open>n\<close> with the ending \<open>.jpg\<close>, in the folder under the output
  folder whose name is \<open>(n - 1) div per_folder + initial_num\<close> filled with zeros to four
  digits. With 100 images to a folder and the first folder 1, the first hundred files
  are in folder \<open>0001\<close> and file 101 is \<open>101.jpg\<close> in folder \<open>0002\<close>.
\<close>

theorem grouped_numerical_paths:
  assumes "MegaScraper e sd rp ri mw mh folderpath ''grouped'' ''numerical'' per_folder initial_num = Inr (c, s0)"
    and "reachable e c s0 s"
    and "1 \<le> n" and "n \<le> length (saved s)"
  shows "fst (saved s ! (n - 1)) =
           path_join
             (path_join folderpath (zfill 4 (str_int ((int n - 1) div per_folder + initial_num))))
             (str_int (int n) @ ''.jpg'')
    \<and> (per_folder = 100 \<and> initial_num = 1 \<and> n \<le> 100 \<longrightarrow>
          fst (saved s ! (n - 1)) = path_join (path_join folderpath ''0001'') (str_int (int n) @ ''.jpg''))
    \<and> (per_folder = 100 \<and> initial_num = 1 \<and> n = 101 \<longrightarrow>
          fst (saved s ! (n - 1)) = path_join (path_join folderpath ''0002'') ''101.jpg'')"
proof -
  from reachable_saved_inv [OF assms(1,2)] assms(3,4)
  have "fst (saved s ! (n - 1)) = grouped_path c n"
    unfolding saved_inv_def by blast
  then have p: "fst (saved s ! (n - 1)) =
           path_join
             (path_join folderpath (zfill 4 (str_int ((int n - 1) div per_folder + initial_num))))
             (str_int (int n) @ ''.jpg'')"
    by (simp add: grouped_path_def MegaScraper_Inr(6,7,8) [OF assms(1)])
  have one: "zfill 4 (str_int 1) = ''0001''" by code_simp
  have two: "zfill 4 (str_int 2) = ''0002''" by code_simp
  have s101: "str_int 101 = ''101''" by code_simp
  have first: "fst (saved s ! (n - 1)) = path_join (path_join folderpath ''0001'') (str_int (int n) @ ''.jpg'')"
    if "per_folder = 100" "initial_num = 1" "n \<le> 100"
  proof -
    from that assms(3) have "(int n - 1) div per_folder + initial_num = 1" by simp
    with p one show ?thesis by simp
  qed
  have second: "fst (saved s ! (n - 1)) = path_join (path_join folderpath ''0002'') ''101.jpg''"
    if "per_folder = 100" "initial_num = 1" "n = 101"
  proof -
    from that have "(int n - 1) div per_folder + initial_num = 2" by simp
    with p two s101 that show ?thesis by simp
  qed
  from p first second show ?thesis by blast
qed

theorem grouped_numerical_paths_witness:
  "MegaScraper small_env ''http://a.b/'' [] [] 5 5 ''out'' ''grouped'' ''numerical'' 100 1
     = Inr (grouped_config, fresh ''http://a.b/'')
   \<and> reachable small_env grouped_config (fresh ''http://a.b/'') small_downloaded
   \<and> (1::nat) \<le> 1 \<and> 1 \<le> length (saved small_downloaded)
   \<and> (100::int) = 100 \<and> (1::int) = 1 \<and> (1::nat) \<le> 100
   \<and> fst (saved small_downloaded ! (1 - 1)) = ''out/0001/1.jpg''
   \<and> path_join (path_join ''out'' ''0001'') (str_int (int 1) @ ''.jpg'') = ''out/0001/1.jpg''
   \<and> path_join (path_join ''out'' ''0002'') ''101.jpg'' = ''out/0002/101.jpg''
   \<and> str_int 100 = ''100''"
proof -
  have init: "MegaScraper small_env ''http://a.b/'' [] [] 5 5 ''out'' ''grouped'' ''numerical'' 100 1
     = Inr (grouped_config, fresh ''http://a.b/'')"
    by code_simp
  have "Returned {''http://a.b/i.png'', ''http://a.b/k.png''} small_crawled
      \<in> scrape small_env grouped_config 5 (fresh ''http://a.b/'')"
    by code_simp
  from reachable.after_scrape [OF reachable.start this]
  have crawled: "reachable small_env grouped_config (fresh ''http://a.b/'') small_crawled"
    by simp
  have "Returned () small_downloaded \<in> download small_env grouped_config 2 small_crawled"
    by code_simp
  from reachable.after_download [OF crawled this]
  have reach: "reachable small_env grouped_config (fresh ''http://a.b/'') small_downloaded"
    by simp
  have n: "(1::nat) \<le> 1" "1 \<le> length (saved small_downloaded)"
    by code_simp+
  have paths: "path_join (path_join ''out'' ''0001'') (str_int (int 1) @ ''.jpg'') = ''out/0001/1.jpg''"
    "path_join (path_join ''out'' ''0002'') ''101.jpg'' = ''out/0002/101.jpg''"
    "str_int 100 = ''100''"
    by code_simp+
  have one: "zfill 4 (str_int 1) = ''0001''" by code_simp
  from grouped_numerical_paths [OF init reach n] init reach n paths
  show ?thesis by (simp add: one)
qed

subsection \<open>The images of the whole site\<close>

lemma images_of_pages_insert:
  "images_of_pages e c (insert url urls) = images_of_page e c url \<union> images_of_pages e c urls"
  by (simp add: images_of_pages_def)

lemma crawl_inv_scrape_page:
  assumes inv: "crawl_inv e c images s" and url: "url \<in> unexplored s"
    and soup: "get_page e url = Some soup"
  shows "crawl_inv e c (images \<union> images_of_page e c url)
           (s\<lparr>unexplored := (unexplored s - {url}) \<union> (page_links e c soup - explored s),
              page_requests := page_requests s @ [url],
              explored := insert url (explored s)\<rparr>)"
    (is "crawl_inv e c ?images ?s1")
proof -
  from inv have sd: "seed c \<in> explored s \<union> unexplored s"
    and sub: "explored s \<union> unexplored s \<subseteq> site e c"
    and closed: "\<And>u. u \<in> explored s \<Longrightarrow> \<exists>soup. get_page e u = Some soup
             \<and> page_links e c soup \<subseteq> explored s \<union> unexplored s"
    and imgs: "images_urls s \<union> images = images_of_pages e c (explored s)"
    unfolding crawl_inv_def by blast+
  have grow: "explored s \<union> unexplored s \<subseteq> explored ?s1 \<union> unexplored ?s1"
    by auto
  have own: "page_links e c soup \<subseteq> explored ?s1 \<union> unexplored ?s1"
    by auto
  from url sub have "url \<in> site e c" by blast
  then have "page_links e c soup \<subseteq> site e c"
    using soup by (blast intro: site.site_link)
  with sub \<open>url \<in> site e c\<close> have sub': "explored ?s1 \<union> unexplored ?s1 \<subseteq> site e c"
    by auto
  from sd grow have sd': "seed c \<in> explored ?s1 \<union> unexplored ?s1" by blast
  have closed': "\<exists>soup. get_page e u = Some soup
             \<and> page_links e c soup \<subseteq> explored ?s1 \<union> unexplored ?s1"
    if "u \<in> explored ?s1" for u
  proof (cases "u = url")
    case True
    with soup own show ?thesis by blast
  next
    case False
    with that have "u \<in> explored s" by simp
    from closed [OF this] grow show ?thesis by blast
  qed
  have imgs': "images_urls ?s1 \<union> ?images = images_of_pages e c (explored ?s1)"
    using imgs by (auto simp: images_of_pages_insert)
  from sd' sub' closed' imgs' show ?thesis
    unfolding crawl_inv_def by blast
qed

lemma crawl_inv_scrape:
  assumes r: "Returned new_images s' \<in> scrape e c max_pages s" and inv: "crawl_inv e c {} s"
  shows "crawl_inv e c {} s'" and "images_urls s' = images_urls s \<union> new_images"
proof -
  from r have "max_pages \<ge> 1"
    by (auto simp: scrape_def split: if_splits)
  with r obtain r0 where r0: "r0 \<in> scrape_loop e c (nat max_pages) {} s"
    and fin: "scrape_finish r0 = Returned new_images s'"
    by (auto simp: scrape_def)
  from fin obtain images s1 where r0_eq: "r0 = Returned images s1"
    by (cases r0) auto
  have "case r0 of Raised err s' \<Rightarrow> True | Returned images' s' \<Rightarrow> crawl_inv e c images' s'"
  proof (rule scrape_loop_rule [OF r0, where P = "crawl_inv e c" and Q = "\<lambda>err s. True"])
    show "crawl_inv e c {} s" by (rule inv)
  next
    fix url images and s :: state
    assume a: "crawl_inv e c images s" "url \<in> unexplored s"
    show "case scrape_page e c url images s of
            Raised err s' \<Rightarrow> True
          | Returned images' s' \<Rightarrow> crawl_inv e c images' s'"
    proof (cases "scrape_page e c url images s")
      case (Raised err s')
      then show ?thesis by simp
    next
      case (Returned images' s')
      from scrape_page_Returned [OF Returned] obtain soup where
        soup: "get_page e url = Some soup"
        and eqs: "images' = images \<union> images_of_page e c url"
          "s' = s\<lparr>unexplored := (unexplored s - {url}) \<union> (page_links e c soup - explored s),
             page_requests := page_requests s @ [url],
             explored := insert url (explored s)\<rparr>"
        by blast
      from crawl_inv_scrape_page [OF a soup] have "crawl_inv e c images' s'"
        unfolding eqs .
      with Returned show ?thesis by simp
    qed
  qed
  with r0_eq have inv1: "crawl_inv e c images s1" by simp
  from scrape_loop_trace [OF r0] r0_eq have same: "images_urls s1 = images_urls s"
    by (auto simp: loop_returned_def)
  from fin r0_eq have new: "new_images = images - images_urls s1"
    and s': "s' = s1\<lparr>images_urls := images_urls s1 \<union> images\<rparr>" by auto
  from inv1 s' show "crawl_inv e c {} s'"
    by (simp add: crawl_inv_def)
  from new s' same show "images_urls s' = images_urls s \<union> new_images"
    by auto
qed

lemma crawl_inv_calls:
  assumes "scrape_calls e c s rs s'" and "crawl_inv e c {} s"
  shows "crawl_inv e c {} s' \<and> images_urls s' = images_urls s \<union> \<Union>(set rs)"
  using assms
proof (induction rule: scrape_calls.induct)
  case no_call
  then show ?case by simp
next
  case (one_more rs s' r s'' max_pages)
  then have inv: "crawl_inv e c {} s'" and imgs: "images_urls s' = images_urls s \<union> \<Union>(set rs)"
    by simp_all
  from crawl_inv_scrape [OF one_more.hyps(2) inv] imgs show ?case by auto
qed

lemma crawl_inv_done:
  assumes inv: "crawl_inv e c {} s" and emp: "unexplored s = {}"
  shows "explored s = site e c" and "images_urls s = images_of_pages e c (site e c)"
proof -
  from inv emp have sd: "seed c \<in> explored s"
    and sub: "explored s \<subseteq> site e c"
    and closed: "\<And>u. u \<in> explored s \<Longrightarrow> \<exists>soup. get_page e u = Some soup
             \<and> page_links e c soup \<subseteq> explored s"
    and imgs: "images_urls s = images_of_pages e c (explored s)"
    unfolding crawl_inv_def by auto
  have "u \<in> explored s" if "u \<in> site e c" for u
    using that
  proof (induction rule: site.induct)
    case site_seed
    show ?case by (rule sd)
  next
    case (site_link u soup h)
    from closed [OF site_link.IH] site_link.hyps(2,3) show ?case by auto
  qed
  with sub show "explored s = site e c" by blast
  with imgs show "images_urls s = images_of_pages e c (site e c)" by simp
qed

lemma crawl_inv_fresh:
  assumes "MegaScraper e sd rp ri mw mh folderpath structure naming per_folder initial_num = Inr (c, s0)"
  shows "crawl_inv e c {} s0" and "images_urls s0 = {}"
  using MegaScraper_Inr(1,2) [OF assms]
  by (auto simp: crawl_inv_def fresh_def images_of_pages_def intro: site.site_seed)

text \<open>
  C8. Take a scraper fresh from the constructor and a fixed site. Let a sequence of calls
  of \<open>scrape\<close>, each with any page budget and each returning, end with \<open>unexplored\<close> empty,
  and let a single call on the fresh scraper return with \<open>unexplored\<close> empty (its budget
  was not the reason to stop). Then the union of the sets the calls of the sequence
  returned is the final \<open>images_urls\<close>, which is the \<open>images_urls\<close> after the single call
  and the set the single call returned: the images of the pages of the site.
\<close>

theorem discovery_independent_of_budget:
  assumes "MegaScraper e sd rp ri mw mh folderpath structure naming per_folder initial_num = Inr (c, s0)"
    and "scrape_calls e c s0 rs s1" and "unexplored s1 = {}"
    and "Returned r s2 \<in> scrape e c max_pages s0" and "unexplored s2 = {}"
  shows "\<Union>(set rs) = images_urls s1
    \<and> images_urls s1 = images_urls s2
    \<and> r = images_urls s2
    \<and> images_urls s2 = images_of_pages e c (site e c)"
proof -
  note fresh = crawl_inv_fresh [OF assms(1)]
  from crawl_inv_calls [OF assms(2) fresh(1)] fresh(2)
  have inv1: "crawl_inv e c {} s1" and u: "images_urls s1 = \<Union>(set rs)" by simp_all
  from crawl_inv_scrape [OF assms(4) fresh(1)] fresh(2)
  have inv2: "crawl_inv e c {} s2" and r: "images_urls s2 = r" by simp_all
  from crawl_inv_done(2) [OF inv1 assms(3)] crawl_inv_done(2) [OF inv2 assms(5)] u r
  show ?thesis by simp
qed

theorem discovery_independent_of_budget_witness:
  "MegaScraper small_env ''http://a.b/'' [] [] 5 5 ''out'' ''grouped'' ''numerical'' 100 1
     = Inr (grouped_config, fresh ''http://a.b/'')
   \<and> Returned {''http://a.b/i.png''} small_first
       \<in> scrape small_env grouped_config 1 (fresh ''http://a.b/'')
   \<and> Returned {''http://a.b/k.png''} small_crawled
       \<in> scrape small_env grouped_config 1 small_first
   \<and> scrape_calls small_env grouped_config (fresh ''http://a.b/'')
        [{''http://a.b/i.png''}, {''http://a.b/k.png''}] small_crawled
   \<and> unexplored small_crawled = {}
   \<and> Returned {''http://a.b/i.png'', ''http://a.b/k.png''} small_crawled
       \<in> scrape small_env grouped_config 5 (fresh ''http://a.b/'')
   \<and> \<Union>(set [{''http://a.b/i.png''}, {''http://a.b/k.png''}]) = images_urls small_crawled
   \<and> images_urls small_crawled = {''http://a.b/i.png'', ''http://a.b/k.png''}"
proof -
  have init: "MegaScraper small_env ''http://a.b/'' [] [] 5 5 ''out'' ''grouped'' ''numerical'' 100 1
     = Inr (grouped_config, fresh ''http://a.b/'')"
    by code_simp
  have first: "Returned {''http://a.b/i.png''} small_first
       \<in> scrape small_env grouped_config 1 (fresh ''http://a.b/'')"
    by code_simp
  have second: "Returned {''http://a.b/k.png''} small_crawled
       \<in> scrape small_env grouped_config 1 small_first"
    by code_simp
  from scrape_calls.one_more [OF scrape_calls.one_more [OF scrape_calls.no_call first] second]
  have calls: "scrape_calls small_env grouped_config (fresh ''http://a.b/'')
        [{''http://a.b/i.png''}, {''http://a.b/k.png''}] small_crawled"
    by simp
  have emp: "unexplored small_crawled = {}"
    by code_simp
  have single: "Returned {''http://a.b/i.png'', ''http://a.b/k.png''} small_crawled
       \<in> scrape small_env grouped_config 5 (fresh ''http://a.b/'')"
    by code_simp
  from discovery_independent_of_budget [OF init calls emp single emp]
    init first second calls emp single
  show ?thesis by simp
qed

end
